theory Spec2Isabelle
  imports Complex_Main "HOL-Library.Char_ord" "HOL-Library.List_Lexorder" "HOL-Library.Multiset"
begin

section \<open>Data model\<close>

text \<open>
  The wallet service of \<^verbatim>\<open>src/task-a-wallet\<close> is embedded over an explicit store
  holding the three tables the service touches. Monetary values (the \<^verbatim>\<open>DECIMAL(15, 2)\<close>
  columns and the JavaScript numbers of a request) are rationals in currency units. A
  request's amount is the decimal its number prints as; a \<^verbatim>\<open>DECIMAL(15, 2)\<close> column holds
  what \<open>DECIMAL_15_2\<close> below makes of the value written to it. Row identifiers, the
  idempotency key and owner identifiers are strings, as in the source.

  A statement against the store fails only for a reason the models declare: a validator,
  a unique column, or a value out of a column's range. Lost connections, timeouts and
  serialization failures are not modelled. The errors of the service are \<^verbatim>\<open>AppError\<close>
  with its message and status code; the Sequelize errors carry the message the library
  gives them.
\<close>

datatype error =
    AppError string nat
  | SequelizeValidationError string
  | SequelizeUniqueConstraintError string
  | SequelizeDatabaseError string

fun message :: "error \<Rightarrow> string" where
  "message (AppError m c) = m"
| "message (SequelizeValidationError m) = m"
| "message (SequelizeUniqueConstraintError m) = m"
| "message (SequelizeDatabaseError m) = m"

text \<open>
  A value written to a \<^verbatim>\<open>DECIMAL(15, 2)\<close> column is rounded to two fractional digits,
  a half going away from zero, and is refused when the rounded value needs more than
  thirteen integer digits. Every insert and every update rounds on its own.
\<close>

definition round_2 :: "rat \<Rightarrow> rat" where
  "round_2 x =
     (if 0 \<le> x then of_int \<lfloor>x * 100 + 1 / 2\<rfloor> / 100
      else - (of_int \<lfloor>- x * 100 + 1 / 2\<rfloor> / 100))"

definition fits_15_2 :: "rat \<Rightarrow> bool" where
  "fits_15_2 x = (\<bar>round_2 x\<bar> < 10 ^ 13)"

definition DECIMAL_15_2 :: "rat \<Rightarrow> error + rat" where
  "DECIMAL_15_2 x =
     (if fits_15_2 x then Inr (round_2 x)
      else Inl (SequelizeDatabaseError ''numeric field overflow''))"

datatype TransactionType = TRANSFER | DEPOSIT | WITHDRAWAL

datatype TransactionStatus = PENDING | COMPLETED | FAILED

fun TransactionStatus_value :: "TransactionStatus \<Rightarrow> string" where
  "TransactionStatus_value PENDING = ''PENDING''"
| "TransactionStatus_value COMPLETED = ''COMPLETED''"
| "TransactionStatus_value FAILED = ''FAILED''"

datatype TransactionLogStatus = LOG_PENDING | LOG_COMPLETED | LOG_FAILED

record Wallet =
  wallet_id :: string
  userId :: string
  balance :: rat

record Transaction =
  txn_id :: string
  fromWalletId :: "string option"
  toWalletId :: "string option"
  amount :: rat
  txn_type :: TransactionType
  status :: TransactionStatus
  reference :: string
  description :: string
  createdAt :: nat

record TransferRequest =
  req_fromUserId :: string
  req_toUserId :: string
  req_amount :: rat
  req_description :: "string option"
  req_idempotencyKey :: string

record TransferResponse =
  res_transactionId :: string
  res_fromWalletId :: string
  res_toWalletId :: string
  res_amount :: rat
  res_status :: string
  res_reference :: string
  res_message :: string

record TransactionLog =
  idempotencyKey :: string
  log_status :: TransactionLogStatus
  log_transactionId :: "string option"
  requestPayload :: TransferRequest
  responsePayload :: "TransferResponse option"
  errorMessage :: "string option"

text \<open>
  The store. \<^verbatim>\<open>wallets\<close> and \<^verbatim>\<open>transactions\<close> are row lists in insertion order;
  \<^verbatim>\<open>transaction_logs\<close> is keyed by its uniquely constrained column \<^verbatim>\<open>idempotencyKey\<close>.
\<close>

record database =
  wallets :: "Wallet list"
  transactions :: "Transaction list"
  transaction_logs :: "string \<rightharpoonup> TransactionLog"

text \<open>
  What a call draws from outside the store: the UUID that becomes the primary key of the
  new transaction row, the UUID of \<^verbatim>\<open>uuidv4()\<close> from which the reference is cut, and the
  clock reading that becomes \<^verbatim>\<open>createdAt\<close>.
\<close>

record env =
  uuid_row :: string
  uuid_ref :: string
  now :: nat

section \<open>IdempotencyService\<close>

definition checkIdempotencyKey :: "string \<Rightarrow> database \<Rightarrow> TransactionLog option" where
  "checkIdempotencyKey key db = transaction_logs db key"

text \<open>\<^verbatim>\<open>TransactionLog.create\<close>: the insert is refused when the key column already holds the key.\<close>

definition TransactionLog_create ::
  "string \<Rightarrow> TransferRequest \<Rightarrow> database \<Rightarrow> error + database" where
  "TransactionLog_create key payload db =
     (case transaction_logs db key of
        Some existing \<Rightarrow> Inl (SequelizeUniqueConstraintError ''Validation error'')
      | None \<Rightarrow>
          Inr (db\<lparr>transaction_logs := (transaction_logs db)(key \<mapsto>
                 \<lparr>idempotencyKey = key, log_status = LOG_PENDING, log_transactionId = None,
                  requestPayload = payload, responsePayload = None, errorMessage = None\<rparr>)\<rparr>))"

definition createPendingLog ::
  "string \<Rightarrow> TransferRequest \<Rightarrow> database \<Rightarrow> error + database" where
  "createPendingLog key payload db =
     (case TransactionLog_create key payload db of
        Inl (SequelizeUniqueConstraintError m) \<Rightarrow>
          Inl (AppError ''Request is already being processed. Please wait.'' 409)
      | Inl err \<Rightarrow> Inl err
      | Inr db' \<Rightarrow> Inr db')"

text \<open>
  \<^verbatim>\<open>TransactionLog.update(values, { where: { idempotencyKey } })\<close>: the listed columns of
  the row with that key are overwritten, whatever the row's current status; no row, no
  change.
\<close>

definition markAsCompleted :: "string \<Rightarrow> string \<Rightarrow> TransferResponse \<Rightarrow> database \<Rightarrow> database" where
  "markAsCompleted key transactionId payload db =
     (case transaction_logs db key of
        None \<Rightarrow> db
      | Some l \<Rightarrow>
          db\<lparr>transaction_logs := (transaction_logs db)(key \<mapsto>
               l\<lparr>log_status := LOG_COMPLETED, log_transactionId := Some transactionId,
                 responsePayload := Some payload\<rparr>)\<rparr>)"

definition markAsFailed :: "string \<Rightarrow> string \<Rightarrow> database \<Rightarrow> database" where
  "markAsFailed key msg db =
     (case transaction_logs db key of
        None \<Rightarrow> db
      | Some l \<Rightarrow>
          db\<lparr>transaction_logs := (transaction_logs db)(key \<mapsto>
               l\<lparr>log_status := LOG_FAILED, errorMessage := Some msg\<rparr>)\<rparr>)"

section \<open>WalletService\<close>

subsection \<open>The unit of work\<close>

text \<open>
  Inside \<^verbatim>\<open>sequelize.transaction\<close> the callback works on a private copy of the store and
  collects row locks; \<^verbatim>\<open>txn_locks\<close> lists the identifiers of the locked wallet rows in
  the order the locks were taken.
\<close>

record txn =
  txn_db :: database
  txn_locks :: "string list"

text \<open>\<^verbatim>\<open>Wallet.findOne({ where: { userId } })\<close>: the first row of that owner, if any.\<close>

definition Wallet_findOne :: "string \<Rightarrow> database \<Rightarrow> Wallet option" where
  "Wallet_findOne uid db = find (\<lambda>w. userId w = uid) (wallets db)"

text \<open>
  \<^verbatim>\<open>Wallet.findOne({ where: { userId }, lock: t.LOCK.UPDATE, transaction: t })\<close>: the
  row found is locked for update; when no row matches, nothing is locked.
\<close>

definition Wallet_findOne_lock :: "string \<Rightarrow> txn \<Rightarrow> Wallet option \<times> txn" where
  "Wallet_findOne_lock uid t =
     (case Wallet_findOne uid (txn_db t) of
        None \<Rightarrow> (None, t)
      | Some w \<Rightarrow> (Some w, t\<lparr>txn_locks := txn_locks t @ [wallet_id w]\<rparr>))"

text \<open>
  \<^verbatim>\<open>Transaction.create\<close>: the model's validator \<^verbatim>\<open>min: 0.01\<close> on \<^verbatim>\<open>amount\<close> runs first,
  on the value as given; the \<^verbatim>\<open>DECIMAL(15, 2)\<close> column then takes the amount; the insert
  is refused when the primary key or the unique \<^verbatim>\<open>reference\<close> is taken.
\<close>

definition Transaction_create :: "Transaction \<Rightarrow> txn \<Rightarrow> error + txn" where
  "Transaction_create row t =
     (if amount row < 1 / 100
      then Inl (SequelizeValidationError ''Validation error: Validation min on amount failed'')
      else
        (case DECIMAL_15_2 (amount row) of
           Inl err \<Rightarrow> Inl err
         | Inr stored \<Rightarrow>
             if txn_id row \<in> set (map txn_id (transactions (txn_db t)))
                \<or> reference row \<in> set (map reference (transactions (txn_db t)))
             then Inl (SequelizeUniqueConstraintError ''Validation error'')
             else Inr (t\<lparr>txn_db := (txn_db t)\<lparr>transactions :=
                         transactions (txn_db t) @ [row\<lparr>amount := stored\<rparr>]\<rparr>\<rparr>)))"

text \<open>
  \<^verbatim>\<open>wallet.decrement('balance', { by })\<close> and \<^verbatim>\<open>wallet.increment('balance', { by })\<close>
  are relative updates of the stored row with the instance's primary key: the statement
  computes the new balance from the stored one and writes it to the \<^verbatim>\<open>DECIMAL(15, 2)\<close>
  column, and fails as a whole when a new balance is out of the column's range.
\<close>

definition Wallet_decrement :: "string \<Rightarrow> rat \<Rightarrow> txn \<Rightarrow> error + txn" where
  "Wallet_decrement wid by t =
     (if list_ex (\<lambda>w. wallet_id w = wid \<and> \<not> fits_15_2 (balance w - by)) (wallets (txn_db t))
      then Inl (SequelizeDatabaseError ''numeric field overflow'')
      else Inr (t\<lparr>txn_db := (txn_db t)\<lparr>wallets :=
              map (\<lambda>w. if wallet_id w = wid then w\<lparr>balance := round_2 (balance w - by)\<rparr> else w)
                  (wallets (txn_db t))\<rparr>\<rparr>))"

definition Wallet_increment :: "string \<Rightarrow> rat \<Rightarrow> txn \<Rightarrow> error + txn" where
  "Wallet_increment wid by t =
     (if list_ex (\<lambda>w. wallet_id w = wid \<and> \<not> fits_15_2 (balance w + by)) (wallets (txn_db t))
      then Inl (SequelizeDatabaseError ''numeric field overflow'')
      else Inr (t\<lparr>txn_db := (txn_db t)\<lparr>wallets :=
              map (\<lambda>w. if wallet_id w = wid then w\<lparr>balance := round_2 (balance w + by)\<rparr> else w)
                  (wallets (txn_db t))\<rparr>\<rparr>))"

definition Transaction_update_status :: "string \<Rightarrow> TransactionStatus \<Rightarrow> txn \<Rightarrow> txn" where
  "Transaction_update_status tid st t =
     t\<lparr>txn_db := (txn_db t)\<lparr>transactions :=
         map (\<lambda>x. if txn_id x = tid then x\<lparr>status := st\<rparr> else x)
             (transactions (txn_db t))\<rparr>\<rparr>"

text \<open>\<^verbatim>\<open>String.prototype.toUpperCase\<close> on the ASCII letters a UUID can hold.\<close>

definition toUpperCase_char :: "char \<Rightarrow> char" where
  "toUpperCase_char c =
     (case map_of (zip ''abcdefghijklmnopqrstuvwxyz'' ''ABCDEFGHIJKLMNOPQRSTUVWXYZ'') c of
        Some u \<Rightarrow> u
      | None \<Rightarrow> c)"

definition make_reference :: "string \<Rightarrow> string" where
  "make_reference uuid = ''TXN-'' @ map toUpperCase_char (take 8 uuid)"

text \<open>\<^verbatim>\<open>description || `Transfer from ${fromUserId} to ${toUserId}`\<close>: an absent or empty
  description is falsy.\<close>

definition description_or_default :: "TransferRequest \<Rightarrow> string" where
  "description_or_default request =
     (case req_description request of
        None \<Rightarrow> ''Transfer from '' @ req_fromUserId request @ '' to '' @ req_toUserId request
      | Some d \<Rightarrow>
          if d = [] then ''Transfer from '' @ req_fromUserId request @ '' to '' @ req_toUserId request
          else d)"

text \<open>The callback handed to \<^verbatim>\<open>sequelize.transaction\<close> (lines 82 to 155 of the service).\<close>

definition transferBody :: "env \<Rightarrow> TransferRequest \<Rightarrow> txn \<Rightarrow> (error + TransferResponse) \<times> txn" where
  "transferBody e request t0 =
     (case Wallet_findOne_lock (req_fromUserId request) t0 of
        (None, t1) \<Rightarrow> (Inl (AppError ''Source wallet not found'' 404), t1)
      | (Some fromWallet, t1) \<Rightarrow>
          (case Wallet_findOne_lock (req_toUserId request) t1 of
             (None, t2) \<Rightarrow> (Inl (AppError ''Destination wallet not found'' 404), t2)
           | (Some toWallet, t2) \<Rightarrow>
               if balance fromWallet < req_amount request
               then (Inl (AppError ''Insufficient balance'' 400), t2)
               else
                 (let ref = make_reference (uuid_ref e);
                      row = \<lparr>txn_id = uuid_row e,
                             fromWalletId = Some (wallet_id fromWallet),
                             toWalletId = Some (wallet_id toWallet),
                             amount = req_amount request,
                             txn_type = TRANSFER,
                             status = PENDING,
                             reference = ref,
                             description = description_or_default request,
                             createdAt = now e\<rparr>
                  in case Transaction_create row t2 of
                       Inl err \<Rightarrow> (Inl err, t2)
                     | Inr t3 \<Rightarrow>
                         (case Wallet_decrement (wallet_id fromWallet) (req_amount request) t3 of
                            Inl err \<Rightarrow> (Inl err, t3)
                          | Inr t4 \<Rightarrow>
                              (case Wallet_increment (wallet_id toWallet) (req_amount request) t4 of
                                 Inl err \<Rightarrow> (Inl err, t4)
                               | Inr t5 \<Rightarrow>
                                   (let t6 = Transaction_update_status (txn_id row) COMPLETED t5
                                    in (Inr \<lparr>res_transactionId = txn_id row,
                                             res_fromWalletId = wallet_id fromWallet,
                                             res_toWalletId = wallet_id toWallet,
                                             res_amount = req_amount request,
                                             res_status = TransactionStatus_value COMPLETED,
                                             res_reference = ref,
                                             res_message = ''Transfer completed successfully''\<rparr>,
                                        t6)))))))"

text \<open>
  \<^verbatim>\<open>sequelize.transaction(options, callback)\<close>: the callback's writes reach the store only
  when it returns; when it throws, the store is the one the unit started from.
\<close>

definition sequelize_transaction ::
  "(txn \<Rightarrow> (error + 'a) \<times> txn) \<Rightarrow> database \<Rightarrow> error + ('a \<times> database)" where
  "sequelize_transaction callback db =
     (case callback \<lparr>txn_db = db, txn_locks = []\<rparr> of
        (Inl err, t) \<Rightarrow> Inl err
      | (Inr result, t) \<Rightarrow> Inr (result, txn_db t))"

subsection \<open>processTransfer\<close>

text \<open>
  The result is the error thrown or the value returned. A replay returns the stored
  \<^verbatim>\<open>responsePayload\<close> column as it is, which the schema allows to be null; hence the
  option.
\<close>

definition executeTransfer ::
  "env \<Rightarrow> TransferRequest \<Rightarrow> database \<Rightarrow> (error + TransferResponse option) \<times> database" where
  "executeTransfer e request db1 =
     (case sequelize_transaction (transferBody e request) db1 of
        Inr (result, db2) \<Rightarrow>
          (Inr (Some result),
           markAsCompleted (req_idempotencyKey request) (res_transactionId result) result db2)
      | Inl err \<Rightarrow>
          (Inl err, markAsFailed (req_idempotencyKey request) (message err) db1))"

definition processTransfer ::
  "env \<Rightarrow> TransferRequest \<Rightarrow> database \<Rightarrow> (error + TransferResponse option) \<times> database" where
  "processTransfer e request db =
     (if req_amount request \<le> 0
      then (Inl (AppError ''Transfer amount must be greater than 0'' 400), db)
      else
        (case checkIdempotencyKey (req_idempotencyKey request) db of
           Some existingLog \<Rightarrow>
             if log_status existingLog = LOG_COMPLETED
             then (Inr (responsePayload existingLog), db)
             else if log_status existingLog = LOG_PENDING
             then (Inl (AppError ''This transaction is already being processed'' 409), db)
             else
               (case createPendingLog (req_idempotencyKey request) request db of
                  Inl err \<Rightarrow> (Inl err, db)
                | Inr db1 \<Rightarrow> executeTransfer e request db1)
         | None \<Rightarrow>
             (case createPendingLog (req_idempotencyKey request) request db of
                Inl err \<Rightarrow> (Inl err, db)
              | Inr db1 \<Rightarrow> executeTransfer e request db1)))"

subsection \<open>Wallets\<close>

text \<open>
  \<^verbatim>\<open>Wallet.create\<close>: the validator \<^verbatim>\<open>min: 0\<close> on \<^verbatim>\<open>balance\<close> runs first, on the value as
  given; the \<^verbatim>\<open>DECIMAL(15, 2)\<close> column then takes the balance; the insert is refused when
  the primary key or the unique \<^verbatim>\<open>userId\<close> is taken. The row's primary key is the UUID
  drawn for it.
\<close>

definition Wallet_create :: "string \<Rightarrow> string \<Rightarrow> rat \<Rightarrow> database \<Rightarrow> error + Wallet \<times> database" where
  "Wallet_create uuid uid initialBalance db =
     (if initialBalance < 0
      then Inl (SequelizeValidationError ''Validation error: Validation min on balance failed'')
      else
        (case DECIMAL_15_2 initialBalance of
           Inl err \<Rightarrow> Inl err
         | Inr stored \<Rightarrow>
             if uuid \<in> set (map wallet_id (wallets db)) \<or> uid \<in> set (map userId (wallets db))
             then Inl (SequelizeUniqueConstraintError ''Validation error'')
             else Inr (\<lparr>wallet_id = uuid, userId = uid, balance = stored\<rparr>,
                       db\<lparr>wallets := wallets db
                              @ [\<lparr>wallet_id = uuid, userId = uid, balance = stored\<rparr>]\<rparr>)))"

text \<open>\<^verbatim>\<open>createWallet(userId, initialBalance = 0)\<close>\<close>

definition createWallet ::
  "string \<Rightarrow> string \<Rightarrow> rat option \<Rightarrow> database \<Rightarrow> error + Wallet \<times> database" where
  "createWallet uuid uid initialBalance db =
     (case Wallet_create uuid uid (case initialBalance of None \<Rightarrow> 0 | Some b \<Rightarrow> b) db of
        Inl (SequelizeUniqueConstraintError m) \<Rightarrow>
          Inl (AppError ''Wallet already exists for this user'' 409)
      | Inl err \<Rightarrow> Inl err
      | Inr created \<Rightarrow> Inr created)"

subsection \<open>Queries\<close>




section \<open>Concurrent calls\<close>

text \<open>
  A call of \<^verbatim>\<open>processTransfer\<close> suspends at each \<^verbatim>\<open>await\<close>; between two of them it
  runs alone. The program points a call can be at, with what it holds there:
  \<^item> \<open>Start\<close>: issued, nothing done (line 47);
  \<^item> \<open>Proceed\<close>: the lookup found no record, or a failed one (line 72);
  \<^item> \<open>Holding\<close>: \<^verbatim>\<open>createPendingLog\<close> inserted the pending record (line 76);
  \<^item> \<open>Resolved\<close>: the unit of work committed or rolled back (lines 158 and 163);
  \<^item> the six ways out: the throw of line 51, the return of line 60, the throw of line 65,
    the throw out of \<^verbatim>\<open>createPendingLog\<close> at line 74, the return of line 161 and the
    rethrow of line 165.
  Every statement against the store is one indivisible step, and so is the serializable unit
  of work: its statements read and write the wallets and transfers tables only, which no
  statement outside a unit of work touches.
\<close>

datatype pc =
    Start
  | Proceed
  | Holding
  | Resolved "error + TransferResponse"
  | Thrown_invalid error
  | Returned_stored "TransferResponse option"
  | Thrown_pending error
  | Thrown_create error
  | Returned_result TransferResponse
  | Rethrown error

record call =
  call_env :: env
  call_request :: TransferRequest
  call_pc :: pc

definition step :: "call \<Rightarrow> database \<Rightarrow> call \<times> database" where
  "step c db =
     (let request = call_request c; key = req_idempotencyKey request in
      case call_pc c of
        Start \<Rightarrow>
          if req_amount request \<le> 0
          then (c\<lparr>call_pc := Thrown_invalid (AppError ''Transfer amount must be greater than 0'' 400)\<rparr>, db)
          else
            (case checkIdempotencyKey key db of
               Some existingLog \<Rightarrow>
                 if log_status existingLog = LOG_COMPLETED
                 then (c\<lparr>call_pc := Returned_stored (responsePayload existingLog)\<rparr>, db)
                 else if log_status existingLog = LOG_PENDING
                 then (c\<lparr>call_pc := Thrown_pending
                            (AppError ''This transaction is already being processed'' 409)\<rparr>, db)
                 else (c\<lparr>call_pc := Proceed\<rparr>, db)
             | None \<Rightarrow> (c\<lparr>call_pc := Proceed\<rparr>, db))
      | Proceed \<Rightarrow>
          (case createPendingLog key request db of
             Inl err \<Rightarrow> (c\<lparr>call_pc := Thrown_create err\<rparr>, db)
           | Inr db1 \<Rightarrow> (c\<lparr>call_pc := Holding\<rparr>, db1))
      | Holding \<Rightarrow>
          (case sequelize_transaction (transferBody (call_env c) request) db of
             Inr (result, db2) \<Rightarrow> (c\<lparr>call_pc := Resolved (Inr result)\<rparr>, db2)
           | Inl err \<Rightarrow> (c\<lparr>call_pc := Resolved (Inl err)\<rparr>, db))
      | Resolved (Inr result) \<Rightarrow>
          (c\<lparr>call_pc := Returned_result result\<rparr>,
           markAsCompleted key (res_transactionId result) result db)
      | Resolved (Inl err) \<Rightarrow>
          (c\<lparr>call_pc := Rethrown err\<rparr>, markAsFailed key (message err) db)
      | _ \<Rightarrow> (c, db))"

text \<open>What the caller receives once the call is over.\<close>

fun outcome :: "pc \<Rightarrow> (error + TransferResponse option) option" where
  "outcome (Thrown_invalid err) = Some (Inl err)"
| "outcome (Returned_stored stored) = Some (Inr stored)"
| "outcome (Thrown_pending err) = Some (Inl err)"
| "outcome (Thrown_create err) = Some (Inl err)"
| "outcome (Returned_result result) = Some (Inr (Some result))"
| "outcome (Rethrown err) = Some (Inl err)"
| "outcome other = None"

text \<open>The call has inserted the pending record of its key (it is at or past line 76).\<close>

fun created_pending :: "pc \<Rightarrow> bool" where
  "created_pending Holding = True"
| "created_pending (Resolved r) = True"
| "created_pending (Returned_result result) = True"
| "created_pending (Rethrown err) = True"
| "created_pending other = False"

text \<open>
  A configuration is the calls in flight and the store they share; a schedule names, step
  by step, the call that moves next.
\<close>

definition sys_step :: "nat \<Rightarrow> call list \<times> database \<Rightarrow> call list \<times> database" where
  "sys_step i cfg =
     (if i < length (fst cfg)
      then (case step (fst cfg ! i) (snd cfg) of (c', db') \<Rightarrow> ((fst cfg)[i := c'], db'))
      else cfg)"

fun run :: "nat list \<Rightarrow> call list \<times> database \<Rightarrow> call list \<times> database" where
  "run [] cfg = cfg"
| "run (i # sched) cfg = run sched (sys_step i cfg)"

definition issue :: "env \<Rightarrow> TransferRequest \<Rightarrow> call" where
  "issue e request = \<lparr>call_env = e, call_request = request, call_pc = Start\<rparr>"

text \<open>The call holds the pending record of its key and has not yet resolved it in the ledger.\<close>

fun in_flight :: "pc \<Rightarrow> bool" where
  "in_flight Holding = True"
| "in_flight (Resolved r) = True"
| "in_flight other = False"

definition key_of :: "call \<Rightarrow> string" where
  "key_of c = req_idempotencyKey (call_request c)"

text \<open>
  The ledger and the calls agree: the key of every call in flight has a pending record,
  and no two calls in flight share a key.
\<close>

definition ledger_inv :: "call list \<times> database \<Rightarrow> bool" where
  "ledger_inv cfg =
     (\<forall>i < length (fst cfg). in_flight (call_pc (fst cfg ! i)) \<longrightarrow>
        map_option log_status (transaction_logs (snd cfg) (key_of (fst cfg ! i)))
          = Some LOG_PENDING
        \<and> (\<forall>j < length (fst cfg).
              in_flight (call_pc (fst cfg ! j)) \<and> key_of (fst cfg ! j) = key_of (fst cfg ! i)
              \<longrightarrow> j = i))"

text \<open>The moves of one ledger record: none at all, absent to pending, pending to completed,
  pending to failed.\<close>

definition ledger_move :: "TransactionLog option \<Rightarrow> TransactionLog option \<Rightarrow> bool" where
  "ledger_move old new =
     (new = old
      \<or> old = None \<and> map_option log_status new = Some LOG_PENDING
      \<or> map_option log_status old = Some LOG_PENDING
          \<and> map_option log_status new = Some LOG_COMPLETED
      \<or> map_option log_status old = Some LOG_PENDING
          \<and> map_option log_status new = Some LOG_FAILED)"

text \<open>
  Calls sharing one key \<open>k\<close>, seen from the ledger record of \<open>k\<close>. While there is no
  record, every call is still before the insert or was turned away for its amount. Once
  there is a record \<open>l\<close>, one call answers for it: in flight while \<open>l\<close> is pending, returned
  with the response stored in \<open>l\<close> when \<open>l\<close> is completed, rethrown when \<open>l\<close> is failed.
  Every other call is before the insert, turned away with one of the three errors, or,
  when \<open>l\<close> is completed, returned with the response stored in \<open>l\<close>.
\<close>

definition early :: "call \<Rightarrow> bool" where
  "early c =
     (call_pc c = Start \<or> call_pc c = Proceed
      \<or> call_pc c = Thrown_invalid (AppError ''Transfer amount must be greater than 0'' 400)
          \<and> req_amount (call_request c) \<le> 0)"

definition bystander :: "TransactionLog \<Rightarrow> call \<Rightarrow> bool" where
  "bystander l c =
     (early c
      \<or> call_pc c = Thrown_pending (AppError ''This transaction is already being processed'' 409)
      \<or> call_pc c
           = Thrown_create (AppError ''Request is already being processed. Please wait.'' 409)
      \<or> log_status l = LOG_COMPLETED \<and> call_pc c = Returned_stored (responsePayload l))"

definition winner :: "TransactionLog \<Rightarrow> call \<Rightarrow> bool" where
  "winner l c =
     (case log_status l of
        LOG_PENDING \<Rightarrow> in_flight (call_pc c)
      | LOG_COMPLETED \<Rightarrow> (\<exists>r. call_pc c = Returned_result r \<and> responsePayload l = Some r)
      | LOG_FAILED \<Rightarrow> (\<exists>err. call_pc c = Rethrown err))"

definition admission_inv :: "string \<Rightarrow> call list \<times> database \<Rightarrow> bool" where
  "admission_inv k cfg =
     ((\<forall>c \<in> set (fst cfg). key_of c = k)
      \<and> (case transaction_logs (snd cfg) k of
            None \<Rightarrow> (\<forall>c \<in> set (fst cfg). early c)
          | Some l \<Rightarrow>
              (\<exists>w < length (fst cfg). winner l (fst cfg ! w)
                 \<and> (\<forall>j < length (fst cfg). j \<noteq> w \<longrightarrow> bystander l (fst cfg ! j)))))"

section \<open>Derived observations\<close>

definition balanceOf :: "database \<Rightarrow> string \<Rightarrow> rat option" where
  "balanceOf db wid = map_option balance (find (\<lambda>w. wallet_id w = wid) (wallets db))"


text \<open>A value as a \<^verbatim>\<open>DECIMAL(15, 2)\<close> column holds it: two fractional digits at most, and
  within the column's range.\<close>

definition stored_15_2 :: "rat \<Rightarrow> bool" where
  "stored_15_2 x = (round_2 x = x \<and> fits_15_2 x)"

text \<open>What the schema and the service keep true of the wallets table: identifiers and owners
  are unique, and every balance is a value of its column and not negative.\<close>

definition wallets_ok :: "database \<Rightarrow> bool" where
  "wallets_ok db =
     (distinct (map wallet_id (wallets db))
      \<and> distinct (map userId (wallets db))
      \<and> (\<forall>w \<in> set (wallets db). stored_15_2 (balance w) \<and> 0 \<le> balance w))"

text \<open>The row locks a unit of work takes on a store, in the order it takes them.\<close>

definition locksAcquired :: "env \<Rightarrow> TransferRequest \<Rightarrow> database \<Rightarrow> string list" where
  "locksAcquired e request db =
     txn_locks (snd (transferBody e request \<lparr>txn_db = db, txn_locks = []\<rparr>))"

text \<open>The transfer row as the unit of work stores it, its amount taken by the column, and
  the response the unit of work builds (lines 114 to 154).\<close>

definition new_row :: "env \<Rightarrow> TransferRequest \<Rightarrow> Wallet \<Rightarrow> Wallet \<Rightarrow> Transaction" where
  "new_row e request fromWallet toWallet =
     \<lparr>txn_id = uuid_row e, fromWalletId = Some (wallet_id fromWallet),
      toWalletId = Some (wallet_id toWallet), amount = round_2 (req_amount request),
      txn_type = TRANSFER, status = PENDING, reference = make_reference (uuid_ref e),
      description = description_or_default request, createdAt = now e\<rparr>"

definition new_response :: "env \<Rightarrow> TransferRequest \<Rightarrow> Wallet \<Rightarrow> Wallet \<Rightarrow> TransferResponse" where
  "new_response e request fromWallet toWallet =
     \<lparr>res_transactionId = uuid_row e, res_fromWalletId = wallet_id fromWallet,
      res_toWalletId = wallet_id toWallet, res_amount = req_amount request,
      res_status = ''COMPLETED'', res_reference = make_reference (uuid_ref e),
      res_message = ''Transfer completed successfully''\<rparr>"

text \<open>The row-wise effect of \<^verbatim>\<open>decrement\<close> and \<^verbatim>\<open>increment\<close>.\<close>

definition debit :: "string \<Rightarrow> rat \<Rightarrow> Wallet \<Rightarrow> Wallet" where
  "debit wid by w =
     (if wallet_id w = wid then w\<lparr>balance := round_2 (balance w - by)\<rparr> else w)"

definition credit :: "string \<Rightarrow> rat \<Rightarrow> Wallet \<Rightarrow> Wallet" where
  "credit wid by w =
     (if wallet_id w = wid then w\<lparr>balance := round_2 (balance w + by)\<rparr> else w)"

text \<open>What the unit of work needs in order to commit, with the wallets it finds: the funds,
  an amount the transfer row accepts, unused generated values, and new balances within the
  column's range.\<close>

definition commits :: "env \<Rightarrow> TransferRequest \<Rightarrow> database \<Rightarrow> Wallet \<Rightarrow> Wallet \<Rightarrow> bool" where
  "commits e request db fromWallet toWallet =
     (Wallet_findOne (req_fromUserId request) db = Some fromWallet
      \<and> Wallet_findOne (req_toUserId request) db = Some toWallet
      \<and> \<not> balance fromWallet < req_amount request
      \<and> 1 / 100 \<le> req_amount request
      \<and> fits_15_2 (req_amount request)
      \<and> uuid_row e \<notin> txn_id ` set (transactions db)
      \<and> make_reference (uuid_ref e) \<notin> reference ` set (transactions db)
      \<and> \<not> list_ex (\<lambda>w. wallet_id w = wallet_id fromWallet
                          \<and> \<not> fits_15_2 (balance w - req_amount request))
             (wallets db)
      \<and> \<not> list_ex (\<lambda>w. wallet_id w = wallet_id toWallet
                          \<and> \<not> fits_15_2 (balance w + req_amount request))
             (map (debit (wallet_id fromWallet) (req_amount request)) (wallets db)))"

text \<open>The ledger record \<^verbatim>\<open>createPendingLog\<close> inserts for a request.\<close>

definition pending_log :: "TransferRequest \<Rightarrow> TransactionLog" where
  "pending_log request =
     \<lparr>idempotencyKey = req_idempotencyKey request, log_status = LOG_PENDING,
      log_transactionId = None, requestPayload = request, responsePayload = None,
      errorMessage = None\<rparr>"


section \<open>A sample store\<close>

text \<open>Account A with 1000 and account B with 500, no transfer and no ledger record yet.\<close>

definition walletA :: Wallet where
  "walletA = \<lparr>wallet_id = ''0a1f'', userId = ''A'', balance = 1000\<rparr>"

definition walletB :: Wallet where
  "walletB = \<lparr>wallet_id = ''7c3e'', userId = ''B'', balance = 500\<rparr>"

definition store0 :: database where
  "store0 = \<lparr>wallets = [walletA, walletB], transactions = [], transaction_logs = Map.empty\<rparr>"

definition env1 :: env where
  "env1 = \<lparr>uuid_row = ''t-0001'', uuid_ref = ''3f2a9c1e-5b7d'', now = 10\<rparr>"

definition env2 :: env where
  "env2 = \<lparr>uuid_row = ''t-0002'', uuid_ref = ''d41c88aa-0e62'', now = 20\<rparr>"

definition transferRequest :: "string \<Rightarrow> string \<Rightarrow> rat \<Rightarrow> string \<Rightarrow> TransferRequest" where
  "transferRequest from to amt key =
     \<lparr>req_fromUserId = from, req_toUserId = to, req_amount = amt,
      req_description = None, req_idempotencyKey = key\<rparr>"

text \<open>
  The store after \<^verbatim>\<open>processTransfer(A, B, 200, K1)\<close> has completed on \<open>store0\<close>, and the
  store after \<^verbatim>\<open>processTransfer(A, B, 1500, K2)\<close> has then failed for lack of funds.
\<close>

definition response1 :: TransferResponse where
  "response1 =
     \<lparr>res_transactionId = ''t-0001'', res_fromWalletId = ''0a1f'', res_toWalletId = ''7c3e'',
      res_amount = 200, res_status = ''COMPLETED'', res_reference = ''TXN-3F2A9C1E'',
      res_message = ''Transfer completed successfully''\<rparr>"

definition completed1 :: TransactionLog where
  "completed1 =
     \<lparr>idempotencyKey = ''K1'', log_status = LOG_COMPLETED, log_transactionId = Some ''t-0001'',
      requestPayload = transferRequest ''A'' ''B'' 200 ''K1'',
      responsePayload = Some response1, errorMessage = None\<rparr>"

definition transfer1 :: Transaction where
  "transfer1 =
     \<lparr>txn_id = ''t-0001'', fromWalletId = Some ''0a1f'', toWalletId = Some ''7c3e'',
      amount = 200, txn_type = TRANSFER, status = COMPLETED, reference = ''TXN-3F2A9C1E'',
      description = ''Transfer from A to B'', createdAt = 10\<rparr>"

definition store1 :: database where
  "store1 =
     \<lparr>wallets = [walletA\<lparr>balance := 800\<rparr>, walletB\<lparr>balance := 700\<rparr>],
      transactions = [transfer1],
      transaction_logs = [''K1'' \<mapsto> completed1]\<rparr>"

definition failed2 :: TransactionLog where
  "failed2 =
     \<lparr>idempotencyKey = ''K2'', log_status = LOG_FAILED, log_transactionId = None,
      requestPayload = transferRequest ''A'' ''B'' 1500 ''K2'',
      responsePayload = None, errorMessage = Some ''Insufficient balance''\<rparr>"

definition store2 :: database where
  "store2 = store1\<lparr>transaction_logs := (transaction_logs store1)(''K2'' \<mapsto> failed2)\<rparr>"



text \<open>Two calls issued together with the same request and the same key K1.\<close>

definition call1 :: call where
  "call1 = issue env1 (transferRequest ''A'' ''B'' 200 ''K1'')"

definition call2 :: call where
  "call2 = issue env2 (transferRequest ''A'' ''B'' 200 ''K1'')"

section \<open>Evaluation on the sample store\<close>

lemmas sample_defs =
  walletA_def walletB_def store0_def env1_def env2_def transferRequest_def
  response1_def completed1_def transfer1_def store1_def failed2_def store2_def

lemma floor_rat_numeral: "\<lfloor>numeral a / numeral b :: rat\<rfloor> = numeral a div numeral b"
  using floor_divide_of_int_eq [of "numeral a" "numeral b", where ?'a = rat] by simp

lemma floor_rat_one: "\<lfloor>1 / numeral b :: rat\<rfloor> = 1 div numeral b"
  using floor_divide_of_int_eq [of 1 "numeral b", where ?'a = rat] by simp

lemmas decimal_defs =
  DECIMAL_15_2_def fits_15_2_def round_2_def floor_rat_numeral floor_rat_one

lemmas service_defs =
  processTransfer_def executeTransfer_def checkIdempotencyKey_def createPendingLog_def
  TransactionLog_create_def markAsCompleted_def markAsFailed_def sequelize_transaction_def
  transferBody_def Wallet_findOne_lock_def Wallet_findOne_def Transaction_create_def
  Wallet_decrement_def Wallet_increment_def Transaction_update_status_def
  make_reference_def toUpperCase_char_def description_or_default_def Let_def decimal_defs

lemma scenario1:
  "processTransfer env1 (transferRequest ''A'' ''B'' 200 ''K1'') store0
     = (Inr (Some response1), store1)"
  by (simp add: service_defs sample_defs)

lemma scenario2:
  "processTransfer env2 (transferRequest ''A'' ''B'' 1500 ''K2'') store1
     = (Inl (AppError ''Insufficient balance'' 400), store2)"
  by (simp add: service_defs sample_defs)

section \<open>The pending record as admission gate\<close>

lemma createPendingLog_absent:
  "transaction_logs db key = None \<Longrightarrow>
     createPendingLog key payload db =
       Inr (db\<lparr>transaction_logs := (transaction_logs db)(key \<mapsto>
              \<lparr>idempotencyKey = key, log_status = LOG_PENDING, log_transactionId = None,
               requestPayload = payload, responsePayload = None, errorMessage = None\<rparr>)\<rparr>)"
  by (simp add: createPendingLog_def TransactionLog_create_def)

lemma createPendingLog_present:
  "transaction_logs db key = Some l \<Longrightarrow>
     createPendingLog key payload db =
       Inl (AppError ''Request is already being processed. Please wait.'' 409)"
  by (simp add: createPendingLog_def TransactionLog_create_def)

section \<open>Amount validation\<close>

text \<open>
  C8. A request whose amount is zero or negative is rejected with the validation error
  (status 400) whatever the store holds, in particular whatever the ledger records for
  the request's idempotency key, and the store (ledger, balances, transfers) is left as
  it was. The rejection is the first step of the call: it is over before any statement
  against the store.
\<close>

theorem processTransfer_invalid_amount:
  "req_amount request \<le> 0 \<Longrightarrow>
     processTransfer e request db
       = (Inl (AppError ''Transfer amount must be greater than 0'' 400), db)
     \<and> step (issue e request) db
       = ((issue e request)
            \<lparr>call_pc := Thrown_invalid (AppError ''Transfer amount must be greater than 0'' 400)\<rparr>,
          db)"
  by (simp add: processTransfer_def step_def issue_def)

text \<open>On the sample store: an amount of -100 under the completed key K1.\<close>

theorem processTransfer_invalid_amount_witness:
  "req_amount (transferRequest ''A'' ''B'' (- 100) ''K1'') \<le> 0
   \<and> transaction_logs store1 ''K1'' = Some completed1
   \<and> processTransfer env2 (transferRequest ''A'' ''B'' (- 100) ''K1'') store1
       = (Inl (AppError ''Transfer amount must be greater than 0'' 400), store1)
   \<and> outcome (call_pc (fst (step (issue env2 (transferRequest ''A'' ''B'' (- 100) ''K1'')) store1)))
       = Some (Inl (AppError ''Transfer amount must be greater than 0'' 400))"
  using processTransfer_invalid_amount
          [of "transferRequest ''A'' ''B'' (- 100) ''K1''" env2 store1]
  by (simp add: transferRequest_def store1_def)

section \<open>Replay of a completed key\<close>

text \<open>
  C3, as amended. When the ledger record of the request's idempotency key is completed and
  the stated amount is positive, \<^verbatim>\<open>processTransfer\<close> returns the stored response as it
  is, whatever accounts and amount the request names (nothing is validated against the
  accounts), and leaves the whole store, balances included, unchanged.
\<close>

theorem replay_returns_stored_response:
  assumes "0 < req_amount request"
    and "transaction_logs db (req_idempotencyKey request) = Some l"
    and "log_status l = LOG_COMPLETED"
  shows "processTransfer e request db = (Inr (responsePayload l), db)"
  using assms by (simp add: processTransfer_def checkIdempotencyKey_def)

text \<open>
  On the sample store: the first call with key K1 moves 200; a second call with the same
  key that asks for 5000, more than account A holds, returns the first call's response and
  changes nothing.
\<close>

theorem replay_returns_stored_response_witness:
  "0 < req_amount (transferRequest ''A'' ''B'' 5000 ''K1'')
   \<and> transaction_logs store1 (req_idempotencyKey (transferRequest ''A'' ''B'' 5000 ''K1''))
         = Some completed1
   \<and> log_status completed1 = LOG_COMPLETED
   \<and> processTransfer env1 (transferRequest ''A'' ''B'' 200 ''K1'') store0
         = (Inr (Some response1), store1)
   \<and> processTransfer env2 (transferRequest ''A'' ''B'' 5000 ''K1'') store1
         = (Inr (Some response1), store1)"
  using replay_returns_stored_response
          [of "transferRequest ''A'' ''B'' 5000 ''K1''" store1 completed1 env2]
        scenario1
  by (simp add: transferRequest_def store1_def completed1_def)

text \<open>
  The claim as stated fails for a different stated amount that is not positive: the amount
  check comes before the ledger lookup, so the call is rejected instead of replayed.
\<close>

theorem replay_nonpositive_amount_counterexample:
  "transaction_logs store1 ''K1'' = Some completed1
   \<and> log_status completed1 = LOG_COMPLETED
   \<and> fst (processTransfer env2 (transferRequest ''A'' ''B'' (- 5) ''K1'') store1)
         = Inl (AppError ''Transfer amount must be greater than 0'' 400)
   \<and> fst (processTransfer env2 (transferRequest ''A'' ''B'' (- 5) ''K1'') store1)
         \<noteq> Inr (responsePayload completed1)"
  by (simp add: processTransfer_def transferRequest_def store1_def completed1_def)

section \<open>Retry of a failed key\<close>

text \<open>
  C2. The claim says that a call whose key has a failed ledger record re-enters the transfer
  logic and can succeed. The code does fall through the lookup for a failed record, as its
  comment says, but the next statement inserts a pending record under the same key, which
  the unique column refuses: every such call with a positive amount ends in the 409
  conflict of \<^verbatim>\<open>createPendingLog\<close>, with the store unchanged.
\<close>

theorem failed_key_retry_is_conflict:
  assumes "0 < req_amount request"
    and "transaction_logs db (req_idempotencyKey request) = Some l"
    and "log_status l = LOG_FAILED"
  shows "processTransfer e request db
           = (Inl (AppError ''Request is already being processed. Please wait.'' 409), db)"
  using assms
  by (simp add: processTransfer_def checkIdempotencyKey_def createPendingLog_present)

text \<open>
  On the sample store: key K2 failed for lack of funds; the retry under K2 asks for 200,
  which account A can pay (the same request under the unused key K3 completes), and is
  refused.
\<close>

theorem failed_key_retry_is_conflict_witness:
  "0 < req_amount (transferRequest ''A'' ''B'' 200 ''K2'')
   \<and> transaction_logs store2 (req_idempotencyKey (transferRequest ''A'' ''B'' 200 ''K2''))
         = Some failed2
   \<and> log_status failed2 = LOG_FAILED
   \<and> processTransfer env2 (transferRequest ''A'' ''B'' 200 ''K2'') store2
         = (Inl (AppError ''Request is already being processed. Please wait.'' 409), store2)
   \<and> fst (processTransfer env2 (transferRequest ''A'' ''B'' 200 ''K3'') store2)
         = Inr (Some \<lparr>res_transactionId = ''t-0002'', res_fromWalletId = ''0a1f'',
                       res_toWalletId = ''7c3e'', res_amount = 200, res_status = ''COMPLETED'',
                       res_reference = ''TXN-D41C88AA'',
                       res_message = ''Transfer completed successfully''\<rparr>)"
proof -
  have "fst (processTransfer env2 (transferRequest ''A'' ''B'' 200 ''K3'') store2)
         = Inr (Some \<lparr>res_transactionId = ''t-0002'', res_fromWalletId = ''0a1f'',
                       res_toWalletId = ''7c3e'', res_amount = 200, res_status = ''COMPLETED'',
                       res_reference = ''TXN-D41C88AA'',
                       res_message = ''Transfer completed successfully''\<rparr>)"
    by (simp add: service_defs sample_defs)
  then show ?thesis
    using failed_key_retry_is_conflict
            [of "transferRequest ''A'' ''B'' 200 ''K2''" store2 failed2 env2]
    by (simp add: transferRequest_def store2_def failed2_def)
qed

section \<open>Values of a decimal column\<close>

lemma floor_half: "\<lfloor>of_int m + (1 / 2 :: rat)\<rfloor> = m"
  by (simp add: floor_eq_iff)

lemma round_2_cents: "round_2 (of_int n / 100) = of_int n / 100"
proof (cases "0 \<le> n")
  case True
  then show ?thesis by (simp add: round_2_def floor_half)
next
  case False
  have "\<lfloor>- (rat_of_int n / 100) * 100 + 1 / 2\<rfloor> = - n"
    using floor_half [of "- n"] by simp
  with False show ?thesis by (simp add: round_2_def)
qed

lemma round_2_is_cents: "\<exists>n. round_2 x = of_int n / 100"
  unfolding round_2_def by (metis (no_types) minus_divide_left of_int_minus)

lemma round_2_fix: "round_2 x = x \<longleftrightarrow> (\<exists>n. x = of_int n / 100)"
proof
  assume "round_2 x = x"
  with round_2_is_cents [of x] show "\<exists>n. x = of_int n / 100" by simp
next
  assume "\<exists>n. x = of_int n / 100"
  then obtain n where "x = of_int n / 100" ..
  then show "round_2 x = x" by (simp only: round_2_cents)
qed

lemma round_2_idem: "round_2 (round_2 x) = round_2 x"
  using round_2_is_cents [of x] by (simp add: round_2_fix)

lemma round_2_diff: "round_2 x = x \<Longrightarrow> round_2 y = y \<Longrightarrow> round_2 (x - y) = x - y"
  unfolding round_2_fix by (metis diff_divide_distrib of_int_diff)


lemma round_2_nonneg: "0 \<le> x \<Longrightarrow> 0 \<le> round_2 x"
  by (simp add: round_2_def)

text \<open>A positive amount of whole cents is at least one cent.\<close>

lemma cents_positive:
  assumes "round_2 a = a" and "0 < a"
  shows "1 / 100 \<le> a"
proof -
  from assms(1) obtain n where a: "a = of_int n / 100" by (auto simp: round_2_fix)
  with assms(2) have "0 < n" by simp
  then have "(1 :: rat) \<le> of_int n" by linarith
  with a show ?thesis by simp
qed

lemma stored_rounded: "fits_15_2 x \<Longrightarrow> stored_15_2 (round_2 x)"
  by (simp add: stored_15_2_def fits_15_2_def round_2_idem)

section \<open>The unit of work\<close>

lemma unit_insufficient:
  assumes "Wallet_findOne (req_fromUserId request) db = Some fromWallet"
    and "Wallet_findOne (req_toUserId request) db = Some toWallet"
    and "balance fromWallet < req_amount request"
  shows "sequelize_transaction (transferBody e request) db
           = Inl (AppError ''Insufficient balance'' 400)"
  using assms
  by (simp add: sequelize_transaction_def transferBody_def Wallet_findOne_lock_def)

lemma unit_commit:
  assumes "commits e request db fromWallet toWallet"
  shows "sequelize_transaction (transferBody e request) db =
     Inr (new_response e request fromWallet toWallet,
          db\<lparr>wallets := map (credit (wallet_id toWallet) (req_amount request))
                          (map (debit (wallet_id fromWallet) (req_amount request)) (wallets db)),
             transactions :=
               map (\<lambda>x. if txn_id x = uuid_row e then x\<lparr>status := COMPLETED\<rparr> else x)
                   (transactions db @ [new_row e request fromWallet toWallet])\<rparr>)"
  using assms
  by (simp add: commits_def sequelize_transaction_def transferBody_def Wallet_findOne_lock_def
      Transaction_create_def DECIMAL_15_2_def Let_def Wallet_decrement_def Wallet_increment_def
      Transaction_update_status_def new_row_def new_response_def
      debit_def [abs_def] credit_def [abs_def])

lemma unit_Inr_cases:
  assumes "sequelize_transaction (transferBody e request) db = Inr (r, db')"
  obtains fromWallet toWallet where "commits e request db fromWallet toWallet"
  using assms
  by (auto simp add: commits_def sequelize_transaction_def transferBody_def
      Wallet_findOne_lock_def Transaction_create_def DECIMAL_15_2_def Let_def
      Wallet_decrement_def Wallet_increment_def debit_def [abs_def]
      split: option.splits if_splits sum.splits prod.splits)

lemma unit_commit_cases:
  assumes "sequelize_transaction (transferBody e request) db = Inr (r, db2)"
  obtains fromWallet toWallet where
    "commits e request db fromWallet toWallet"
    "r = new_response e request fromWallet toWallet"
    "wallets db2 = map (credit (wallet_id toWallet) (req_amount request))
                     (map (debit (wallet_id fromWallet) (req_amount request)) (wallets db))"
proof -
  from assms obtain fromWallet toWallet where h: "commits e request db fromWallet toWallet"
    by (rule unit_Inr_cases)
  from unit_commit [OF h] assms
  have "r = new_response e request fromWallet toWallet"
    and "wallets db2 = map (credit (wallet_id toWallet) (req_amount request))
                     (map (debit (wallet_id fromWallet) (req_amount request)) (wallets db))"
    by auto
  with h that show ?thesis by blast
qed

text \<open>The unit of work neither reads nor writes the ledger.\<close>

lemma unit_logs_irrelevant:
  "sequelize_transaction (transferBody e request) (db\<lparr>transaction_logs := m\<rparr>) =
     map_sum id (\<lambda>(r, d). (r, d\<lparr>transaction_logs := m\<rparr>))
       (sequelize_transaction (transferBody e request) db)"
  by (auto simp add: sequelize_transaction_def transferBody_def Wallet_findOne_lock_def
      Wallet_findOne_def Transaction_create_def Let_def Wallet_decrement_def
      Wallet_increment_def Transaction_update_status_def
      split: option.splits if_splits sum.splits prod.splits)

lemma unit_keeps_logs:
  "sequelize_transaction (transferBody e request) db = Inr (r, db') \<Longrightarrow>
     transaction_logs db' = transaction_logs db"
  by (auto simp add: sequelize_transaction_def transferBody_def Wallet_findOne_lock_def
      Wallet_findOne_def Transaction_create_def Let_def Wallet_decrement_def
      Wallet_increment_def Transaction_update_status_def
      split: option.splits if_splits sum.splits prod.splits)

text \<open>A call with a positive amount and an unused key runs the unit of work and records
  its outcome under the key.\<close>

lemma processTransfer_fresh:
  assumes "0 < req_amount request"
    and "transaction_logs db (req_idempotencyKey request) = None"
  shows "processTransfer e request db =
     (case sequelize_transaction (transferBody e request) db of
        Inr (result, db2) \<Rightarrow>
          (Inr (Some result),
           db2\<lparr>transaction_logs := (transaction_logs db)(req_idempotencyKey request \<mapsto>
                 (pending_log request)\<lparr>log_status := LOG_COMPLETED,
                    log_transactionId := Some (res_transactionId result),
                    responsePayload := Some result\<rparr>)\<rparr>)
      | Inl err \<Rightarrow>
          (Inl err,
           db\<lparr>transaction_logs := (transaction_logs db)(req_idempotencyKey request \<mapsto>
                 (pending_log request)\<lparr>log_status := LOG_FAILED,
                    errorMessage := Some (message err)\<rparr>)\<rparr>))"
proof (cases "sequelize_transaction (transferBody e request) db")
  case (Inl err)
  with assms show ?thesis
    by (simp add: processTransfer_def checkIdempotencyKey_def createPendingLog_def
        TransactionLog_create_def executeTransfer_def unit_logs_irrelevant markAsFailed_def
        pending_log_def)
next
  case (Inr p)
  obtain result db2 where p: "p = (result, db2)" by (cases p)
  from Inr p have "transaction_logs db2 = transaction_logs db"
    by (simp add: unit_keeps_logs)
  with assms Inr p show ?thesis
    by (simp add: processTransfer_def checkIdempotencyKey_def createPendingLog_def
        TransactionLog_create_def executeTransfer_def unit_logs_irrelevant markAsCompleted_def
        pending_log_def)
qed

section \<open>Insufficient funds\<close>

text \<open>
  C6, as amended. For every \<^verbatim>\<open>processTransfer\<close> call whose idempotency key has no ledger
  record, where both accounts exist and the source balance (never negative in the store)
  is strictly less than the amount, the call fails with the insufficient-balance error
  (status 400) and the wallets and transfers tables are as before the call; the key's
  ledger record is left in the failed state.
\<close>

theorem insufficient_funds_rolls_back:
  assumes "transaction_logs db (req_idempotencyKey request) = None"
    and "Wallet_findOne (req_fromUserId request) db = Some fromWallet"
    and "Wallet_findOne (req_toUserId request) db = Some toWallet"
    and "0 \<le> balance fromWallet"
    and "balance fromWallet < req_amount request"
  shows "fst (processTransfer e request db) = Inl (AppError ''Insufficient balance'' 400)
       \<and> wallets (snd (processTransfer e request db)) = wallets db
       \<and> transactions (snd (processTransfer e request db)) = transactions db
       \<and> map_option log_status
            (transaction_logs (snd (processTransfer e request db)) (req_idempotencyKey request))
          = Some LOG_FAILED"
proof -
  from assms have "0 < req_amount request" by simp
  with assms show ?thesis
    by (simp add: processTransfer_fresh unit_insufficient)
qed

text \<open>On the sample store: account A holds 800 and is asked for 1500 under the unused key K2.\<close>

theorem insufficient_funds_rolls_back_witness:
  "transaction_logs store1 (req_idempotencyKey (transferRequest ''A'' ''B'' 1500 ''K2'')) = None
   \<and> Wallet_findOne (req_fromUserId (transferRequest ''A'' ''B'' 1500 ''K2'')) store1
       = Some (walletA\<lparr>balance := 800\<rparr>)
   \<and> Wallet_findOne (req_toUserId (transferRequest ''A'' ''B'' 1500 ''K2'')) store1
       = Some (walletB\<lparr>balance := 700\<rparr>)
   \<and> 0 \<le> balance (walletA\<lparr>balance := 800\<rparr>)
   \<and> balance (walletA\<lparr>balance := 800\<rparr>) < req_amount (transferRequest ''A'' ''B'' 1500 ''K2'')
   \<and> fst (processTransfer env2 (transferRequest ''A'' ''B'' 1500 ''K2'') store1)
       = Inl (AppError ''Insufficient balance'' 400)
   \<and> wallets (snd (processTransfer env2 (transferRequest ''A'' ''B'' 1500 ''K2'') store1))
       = wallets store1
   \<and> transactions (snd (processTransfer env2 (transferRequest ''A'' ''B'' 1500 ''K2'') store1))
       = transactions store1"
  using insufficient_funds_rolls_back
          [of store1 "transferRequest ''A'' ''B'' 1500 ''K2''"
              "walletA\<lparr>balance := 800\<rparr>" "walletB\<lparr>balance := 700\<rparr>" env2]
  by (simp add: Wallet_findOne_def sample_defs)

text \<open>
  The claim as stated fails when the key already has a ledger record: under the completed
  key K1 the same accounts and an amount of 5000, more than account A holds, give the
  stored response of the earlier transfer, not an error.
\<close>

theorem insufficient_funds_replay_counterexample:
  "Wallet_findOne ''A'' store1 = Some (walletA\<lparr>balance := 800\<rparr>)
   \<and> Wallet_findOne ''B'' store1 = Some (walletB\<lparr>balance := 700\<rparr>)
   \<and> balance (walletA\<lparr>balance := 800\<rparr>) < req_amount (transferRequest ''A'' ''B'' 5000 ''K1'')
   \<and> fst (processTransfer env2 (transferRequest ''A'' ''B'' 5000 ''K1'') store1)
       = Inr (Some response1)
   \<and> fst (processTransfer env2 (transferRequest ''A'' ''B'' 5000 ''K1'') store1)
       \<noteq> Inl (AppError ''Insufficient balance'' 400)"
  by (simp add: processTransfer_def checkIdempotencyKey_def Wallet_findOne_def sample_defs)

section \<open>Conservation\<close>










lemma ids_debit: "map wallet_id (map (debit i d) ws) = map wallet_id ws"
  by (induction ws) (auto simp: debit_def)

lemma findOne_in_set: "Wallet_findOne u db = Some w \<Longrightarrow> w \<in> set (wallets db)"
  by (auto simp: Wallet_findOne_def find_Some_iff)






section \<open>The wallets table stays well formed\<close>

text \<open>A store with no wallet is well formed; \<^verbatim>\<open>createWallet\<close> and \<^verbatim>\<open>processTransfer\<close> keep a
  store well formed.\<close>

lemma empty_store_ok:
  "wallets_ok \<lparr>wallets = [], transactions = [], transaction_logs = Map.empty\<rparr>"
  by (simp add: wallets_ok_def)

lemma Wallet_create_Inr:
  assumes "Wallet_create uuid uid b db = Inr (w, db')"
  shows "wallets db' = wallets db @ [w]" and "wallet_id w \<notin> set (map wallet_id (wallets db))"
    and "userId w \<notin> set (map userId (wallets db))" and "stored_15_2 (balance w)"
    and "0 \<le> balance w"
proof -
  from assms have nn: "0 \<le> b" and fits: "fits_15_2 b"
    and w: "w = \<lparr>wallet_id = uuid, userId = uid, balance = round_2 b\<rparr>"
    and db': "db' = db\<lparr>wallets := wallets db @ [w]\<rparr>"
    and fresh: "uuid \<notin> set (map wallet_id (wallets db))" "uid \<notin> set (map userId (wallets db))"
    by (auto simp: Wallet_create_def DECIMAL_15_2_def split: if_splits)
  from db' show "wallets db' = wallets db @ [w]" by simp
  from fresh w show "wallet_id w \<notin> set (map wallet_id (wallets db))"
    and "userId w \<notin> set (map userId (wallets db))" by simp_all
  from fits w show "stored_15_2 (balance w)" by (simp add: stored_rounded)
  from nn w show "0 \<le> balance w" by (simp add: round_2_nonneg)
qed

lemma createWallet_ok:
  assumes "wallets_ok db" and "createWallet uuid uid initialBalance db = Inr (w, db')"
  shows "wallets_ok db'"
proof -
  from assms(2) obtain b where "Wallet_create uuid uid b db = Inr (w, db')"
    by (auto simp: createWallet_def split: sum.splits error.splits)
  from Wallet_create_Inr [OF this] assms(1) show ?thesis
    by (auto simp: wallets_ok_def)
qed

lemma store0_created:
  "createWallet ''0a1f'' ''A'' (Some 1000)
     \<lparr>wallets = [], transactions = [], transaction_logs = Map.empty\<rparr>
     = Inr (walletA, \<lparr>wallets = [walletA], transactions = [], transaction_logs = Map.empty\<rparr>)"
  "createWallet ''7c3e'' ''B'' (Some 500)
     \<lparr>wallets = [walletA], transactions = [], transaction_logs = Map.empty\<rparr>
     = Inr (walletB, store0)"
  by (simp_all add: createWallet_def Wallet_create_def walletA_def walletB_def store0_def
      decimal_defs)

lemma ids_credit: "map wallet_id (map (credit i d) ws) = map wallet_id ws"
  by (induction ws) (auto simp: credit_def)

lemma owners_debit: "map userId (map (debit i d) ws) = map userId ws"
  by (induction ws) (auto simp: debit_def)

lemma owners_credit: "map userId (map (credit i d) ws) = map userId ws"
  by (induction ws) (auto simp: credit_def)

lemma same_id_same_row:
  assumes "distinct (map wallet_id ws)" and "w \<in> set ws" and "v \<in> set ws"
    and "wallet_id w = wallet_id v"
  shows "w = v"
  using assms by (meson distinct_map inj_onD)

text \<open>What a call does to the wallets table: nothing, or the debit and the credit of a
  transfer that the unit of work commits.\<close>

lemma processTransfer_wallets:
  "wallets (snd (processTransfer e request db)) = wallets db
   \<or> (\<exists>fromWallet toWallet.
         commits e request db fromWallet toWallet
       \<and> 0 < req_amount request
       \<and> wallets (snd (processTransfer e request db))
           = map (credit (wallet_id toWallet) (req_amount request))
               (map (debit (wallet_id fromWallet) (req_amount request)) (wallets db)))"
proof (cases "req_amount request \<le> 0")
  case True
  then show ?thesis by (simp add: processTransfer_def)
next
  case pos: False
  show ?thesis
  proof (cases "transaction_logs db (req_idempotencyKey request)")
    case (Some l)
    with pos show ?thesis
      by (simp add: processTransfer_def checkIdempotencyKey_def createPendingLog_present)
  next
    case None
    from pos have p: "0 < req_amount request" by simp
    show ?thesis
    proof (cases "sequelize_transaction (transferBody e request) db")
      case (Inl err)
      then show ?thesis by (simp add: processTransfer_fresh [OF p None])
    next
      case (Inr res)
      obtain r db2 where res: "res = (r, db2)" by (cases res)
      with Inr have u: "sequelize_transaction (transferBody e request) db = Inr (r, db2)"
        by simp
      from u obtain fw tw where
        "commits e request db fw tw"
        "r = new_response e request fw tw"
        "wallets db2 = map (credit (wallet_id tw) (req_amount request))
                         (map (debit (wallet_id fw) (req_amount request)) (wallets db))"
        by (rule unit_commit_cases)
      then show ?thesis
        using p u by (auto simp: processTransfer_fresh [OF p None])
    qed
  qed
qed

text \<open>One update of a row keeps it a non-negative value of the column, when the new
  balance is in range and not negative.\<close>

lemma debit_row_ok:
  assumes "stored_15_2 (balance w) \<and> 0 \<le> balance w"
    and "wallet_id w = i \<Longrightarrow> fits_15_2 (balance w - d) \<and> 0 \<le> balance w - d"
  shows "stored_15_2 (balance (debit i d w)) \<and> 0 \<le> balance (debit i d w)"
  using assms by (simp add: debit_def stored_rounded round_2_nonneg)

lemma credit_row_ok:
  assumes "stored_15_2 (balance w) \<and> 0 \<le> balance w"
    and "wallet_id w = i \<Longrightarrow> fits_15_2 (balance w + d) \<and> 0 \<le> balance w + d"
  shows "stored_15_2 (balance (credit i d w)) \<and> 0 \<le> balance (credit i d w)"
  using assms by (simp add: credit_def stored_rounded round_2_nonneg)

lemma processTransfer_ok:
  assumes ok: "wallets_ok db"
  shows "wallets_ok (snd (processTransfer e request db))"
proof -
  from processTransfer_wallets [of e request db] show ?thesis
  proof (elim disjE exE conjE)
    assume "wallets (snd (processTransfer e request db)) = wallets db"
    with ok show ?thesis by (simp add: wallets_ok_def)
  next
    fix fw tw :: Wallet
    let ?a = "req_amount request"
    let ?ws1 = "map (debit (wallet_id fw) ?a) (wallets db)"
    assume c: "commits e request db fw tw" and pos: "0 < ?a"
      and ws: "wallets (snd (processTransfer e request db))
                 = map (credit (wallet_id tw) ?a) ?ws1"
    from c have fw: "Wallet_findOne (req_fromUserId request) db = Some fw"
      and enough: "?a \<le> balance fw"
      and fits_down: "\<And>w. w \<in> set (wallets db) \<Longrightarrow> wallet_id w = wallet_id fw
                        \<Longrightarrow> fits_15_2 (balance w - ?a)"
      and fits_up: "\<And>v. v \<in> set ?ws1 \<Longrightarrow> wallet_id v = wallet_id tw
                        \<Longrightarrow> fits_15_2 (balance v + ?a)"
      by (auto simp: commits_def list_ex_iff)
    from ok have d: "distinct (map wallet_id (wallets db))"
      and row: "\<And>w. w \<in> set (wallets db) \<Longrightarrow> stored_15_2 (balance w) \<and> 0 \<le> balance w"
      by (simp_all add: wallets_ok_def)
    from fw have fw_in: "fw \<in> set (wallets db)" by (rule findOne_in_set)
    have row1: "stored_15_2 (balance v) \<and> 0 \<le> balance v" if v: "v \<in> set ?ws1" for v
    proof -
      from v obtain w where w: "w \<in> set (wallets db)" and v_def: "v = debit (wallet_id fw) ?a w"
        by auto
      have "fits_15_2 (balance w - ?a) \<and> 0 \<le> balance w - ?a" if same: "wallet_id w = wallet_id fw"
        using fits_down [OF w same] same_id_same_row [OF d w fw_in same] enough by simp
      with row [OF w] show ?thesis unfolding v_def by (rule debit_row_ok)
    qed
    have row2: "stored_15_2 (balance (credit (wallet_id tw) ?a v))
                \<and> 0 \<le> balance (credit (wallet_id tw) ?a v)" if v: "v \<in> set ?ws1" for v
    proof -
      have "fits_15_2 (balance v + ?a) \<and> 0 \<le> balance v + ?a" if same: "wallet_id v = wallet_id tw"
        using fits_up [OF v same] row1 [OF v] pos by simp
      with row1 [OF v] show ?thesis by (rule credit_row_ok)
    qed
    then have "\<forall>w \<in> set (wallets (snd (processTransfer e request db))).
                 stored_15_2 (balance w) \<and> 0 \<le> balance w"
      unfolding ws by auto
    moreover from ok have "distinct (map wallet_id (wallets (snd (processTransfer e request db))))"
      and "distinct (map userId (wallets (snd (processTransfer e request db))))"
      unfolding ws by (simp_all only: ids_credit ids_debit owners_credit owners_debit wallets_ok_def)
    ultimately show ?thesis by (simp add: wallets_ok_def)
  qed
qed

section \<open>Transfer to the own account\<close>

lemma credit_debit_same:
  assumes "\<forall>w \<in> set ws. round_2 (balance w) = balance w" and "round_2 d = d"
  shows "map (credit i d \<circ> debit i d) ws = ws"
proof -
  have "(credit i d \<circ> debit i d) w = w" if w: "w \<in> set ws" for w
  proof (cases "wallet_id w = i")
    case True
    from w assms(1) have b: "round_2 (balance w) = balance w" by simp
    from b assms(2) have "round_2 (balance w - d) = balance w - d" by (rule round_2_diff)
    with True b show ?thesis by (simp add: credit_def debit_def)
  next
    case False
    then show ?thesis by (simp add: credit_def debit_def)
  qed
  then show ?thesis by (simp add: map_idI)
qed

lemma update_status_absent:
  "tid \<notin> txn_id ` set ts \<Longrightarrow>
     map (\<lambda>x. if txn_id x = tid then x\<lparr>status := st\<rparr> else x) ts = ts"
  by (induction ts) auto

lemma stored_fits: "stored_15_2 x \<Longrightarrow> fits_15_2 x"
  by (simp add: stored_15_2_def)

lemma fits_between:
  assumes "fits_15_2 y" and "round_2 x = x" and "0 \<le> x" and "x \<le> y"
  shows "fits_15_2 x"
proof -
  from assms(3,4) have "0 \<le> round_2 y" by (simp add: round_2_nonneg)
  moreover have "x \<le> round_2 y"
  proof (rule ccontr)
    assume "\<not> x \<le> round_2 y"
    then have lt: "round_2 y < x" by simp
    from assms(2) obtain n where x: "x = of_int n / 100" by (auto simp: round_2_fix)
    from assms(3,4) have y: "round_2 y = of_int \<lfloor>y * 100 + 1 / 2\<rfloor> / 100"
      by (simp add: round_2_def)
    from lt have "\<lfloor>y * 100 + 1 / 2\<rfloor> < n" unfolding x y
      by (simp add: divide_less_cancel)
    then have "\<lfloor>y * 100 + 1 / 2\<rfloor> + 1 \<le> n" by simp
    then have "y * 100 + 1 / 2 < of_int n" by linarith
    with assms(4) x show False by simp
  qed
  ultimately show ?thesis using assms by (simp add: fits_15_2_def)
qed

text \<open>
  C10, as amended. For every call of the service-level \<^verbatim>\<open>processTransfer\<close> with the same
  owner as source and destination, on a well-formed store (wallet identifiers and owners
  are unique, every balance is a non-negative value of the \<^verbatim>\<open>DECIMAL(15, 2)\<close> column),
  whose idempotency key has no ledger record, whose amount is positive and has at most
  two decimal places, whose owner holds at least the amount, and whose generated row
  identifier and reference are not in use: the call returns the completed result, appends
  one completed transfer row whose source and destination are that owner's wallet, and
  leaves every balance as it was.
\<close>

theorem self_transfer_completes:
  assumes "req_toUserId request = req_fromUserId request"
    and "wallets_ok db"
    and "transaction_logs db (req_idempotencyKey request) = None"
    and "0 < req_amount request"
    and "round_2 (req_amount request) = req_amount request"
    and "Wallet_findOne (req_fromUserId request) db = Some w"
    and "req_amount request \<le> balance w"
    and "uuid_row e \<notin> txn_id ` set (transactions db)"
    and "make_reference (uuid_ref e) \<notin> reference ` set (transactions db)"
  shows "fst (processTransfer e request db) = Inr (Some (new_response e request w w))
       \<and> wallets (snd (processTransfer e request db)) = wallets db
       \<and> transactions (snd (processTransfer e request db))
           = transactions db @ [(new_row e request w w)\<lparr>status := COMPLETED\<rparr>]"
proof -
  let ?a = "req_amount request"
  let ?i = "wallet_id w"
  from assms(2) have d: "distinct (map wallet_id (wallets db))"
    and stored: "\<And>v. v \<in> set (wallets db) \<Longrightarrow> stored_15_2 (balance v)"
    by (simp_all add: wallets_ok_def)
  then have cents: "\<forall>v \<in> set (wallets db). round_2 (balance v) = balance v"
    by (simp add: stored_15_2_def)
  from assms(6) have w_in: "w \<in> set (wallets db)" by (rule findOne_in_set)
  from stored [OF w_in] have w_cents: "round_2 (balance w) = balance w"
    and w_fits: "fits_15_2 (balance w)"
    by (simp_all add: stored_15_2_def)
  from w_cents assms(5) have left_cents: "round_2 (balance w - ?a) = balance w - ?a"
    by (rule round_2_diff)
  from assms(4) have nn_a: "0 \<le> ?a" by simp
  from assms(7) have nn_left: "0 \<le> balance w - ?a" by simp
  from assms(4) have le_left: "balance w - ?a \<le> balance w" by simp
  have fits_a: "fits_15_2 ?a"
    using w_fits assms(5) nn_a assms(7) by (rule fits_between)
  have fits_left: "fits_15_2 (balance w - ?a)"
    using w_fits left_cents nn_left le_left by (rule fits_between)
  have down: "fits_15_2 (balance v - ?a)" if "v \<in> set (wallets db)" "wallet_id v = ?i" for v
    using same_id_same_row [OF d that(1) w_in that(2)] fits_left by simp
  have up: "fits_15_2 (balance v + ?a)"
    if v: "v \<in> set (map (debit ?i ?a) (wallets db))" and same: "wallet_id v = ?i" for v
  proof -
    from v obtain u where u: "u \<in> set (wallets db)" and v_def: "v = debit ?i ?a u" by auto
    from same have "wallet_id u = ?i" by (simp add: v_def debit_def split: if_splits)
    from same_id_same_row [OF d u w_in this] have "balance v = balance w - ?a"
      by (simp add: v_def debit_def left_cents)
    with w_fits show ?thesis by simp
  qed
  from assms(1,6) have tw: "Wallet_findOne (req_toUserId request) db = Some w" by simp
  have no_down: "\<not> list_ex (\<lambda>v. wallet_id v = ?i \<and> \<not> fits_15_2 (balance v - ?a)) (wallets db)"
    unfolding list_ex_iff using down by blast
  have no_up: "\<not> list_ex (\<lambda>v. wallet_id v = ?i \<and> \<not> fits_15_2 (balance v + ?a))
                    (map (debit ?i ?a) (wallets db))"
    unfolding list_ex_iff using up by blast
  from assms(7) have enough: "\<not> balance w < ?a" by simp
  have c: "commits e request db w w"
    unfolding commits_def
    using assms(6) tw enough cents_positive [OF assms(5) assms(4)] fits_a assms(8) assms(9)
      no_down no_up
    by (intro conjI)
  have rid: "txn_id (new_row e request w w) = uuid_row e" by (simp add: new_row_def)
  have same: "map (credit ?i ?a \<circ> debit ?i ?a) (wallets db) = wallets db"
    using cents assms(5) by (rule credit_debit_same)
  show ?thesis
    by (simp add: processTransfer_fresh [OF assms(4) assms(3)] unit_commit [OF c]
        same update_status_absent [OF assms(8)] rid)
qed

text \<open>On the sample store: A sends 100 to A under the unused key K5.\<close>

theorem self_transfer_completes_witness:
  "req_toUserId (transferRequest ''A'' ''A'' 100 ''K5'')
     = req_fromUserId (transferRequest ''A'' ''A'' 100 ''K5'')
   \<and> wallets_ok store1
   \<and> transaction_logs store1 (req_idempotencyKey (transferRequest ''A'' ''A'' 100 ''K5'')) = None
   \<and> 0 < req_amount (transferRequest ''A'' ''A'' 100 ''K5'')
   \<and> round_2 (req_amount (transferRequest ''A'' ''A'' 100 ''K5''))
       = req_amount (transferRequest ''A'' ''A'' 100 ''K5'')
   \<and> Wallet_findOne (req_fromUserId (transferRequest ''A'' ''A'' 100 ''K5'')) store1
       = Some (walletA\<lparr>balance := 800\<rparr>)
   \<and> req_amount (transferRequest ''A'' ''A'' 100 ''K5'') \<le> balance (walletA\<lparr>balance := 800\<rparr>)
   \<and> uuid_row env2 \<notin> txn_id ` set (transactions store1)
   \<and> make_reference (uuid_ref env2) \<notin> reference ` set (transactions store1)
   \<and> fst (processTransfer env2 (transferRequest ''A'' ''A'' 100 ''K5'') store1)
       = Inr (Some \<lparr>res_transactionId = ''t-0002'', res_fromWalletId = ''0a1f'',
                     res_toWalletId = ''0a1f'', res_amount = 100, res_status = ''COMPLETED'',
                     res_reference = ''TXN-D41C88AA'',
                     res_message = ''Transfer completed successfully''\<rparr>)
   \<and> wallets (snd (processTransfer env2 (transferRequest ''A'' ''A'' 100 ''K5'') store1))
       = wallets store1
   \<and> transactions (snd (processTransfer env2 (transferRequest ''A'' ''A'' 100 ''K5'') store1))
       = [transfer1,
          \<lparr>txn_id = ''t-0002'', fromWalletId = Some ''0a1f'', toWalletId = Some ''0a1f'',
           amount = 100, txn_type = TRANSFER, status = COMPLETED,
           reference = ''TXN-D41C88AA'', description = ''Transfer from A to A'',
           createdAt = 20\<rparr>]"
  using self_transfer_completes
          [of "transferRequest ''A'' ''A'' 100 ''K5''" store1 "walletA\<lparr>balance := 800\<rparr>" env2]
  by (simp add: Wallet_findOne_def new_response_def new_row_def make_reference_def
      toUpperCase_char_def description_or_default_def wallets_ok_def stored_15_2_def
      decimal_defs sample_defs)

text \<open>
  The claim as stated fails in four ways, each with the same owner on both sides, a
  positive amount and enough funds: an amount of 0.001 under an unused key passes the
  checks of the service and is refused by the validator of the transfer row; under the
  completed key K1 the call replays the stored response and creates no transfer row; a
  generated reference that is already in use is refused by the unique column; and an
  amount of 0.015 completes but changes the balance, because the debit and the credit
  each round to two decimal places: 800.00 becomes 799.99 and then 800.01.
\<close>

theorem self_transfer_counterexample:
  "fst (processTransfer env2 (transferRequest ''A'' ''A'' (1 / 1000) ''K5'') store1)
     = Inl (SequelizeValidationError ''Validation error: Validation min on amount failed'')
   \<and> processTransfer env2 (transferRequest ''A'' ''A'' 100 ''K1'') store1
       = (Inr (Some response1), store1)
   \<and> fst (processTransfer (env2\<lparr>uuid_ref := uuid_ref env1\<rparr>)
            (transferRequest ''A'' ''A'' 100 ''K5'') store1)
       = Inl (SequelizeUniqueConstraintError ''Validation error'')
   \<and> balanceOf store1 ''0a1f'' = Some 800
   \<and> fst (processTransfer env2 (transferRequest ''A'' ''A'' (15 / 1000) ''K5'') store1)
       = Inr (Some \<lparr>res_transactionId = ''t-0002'', res_fromWalletId = ''0a1f'',
                     res_toWalletId = ''0a1f'', res_amount = 15 / 1000,
                     res_status = ''COMPLETED'', res_reference = ''TXN-D41C88AA'',
                     res_message = ''Transfer completed successfully''\<rparr>)
   \<and> balanceOf (snd (processTransfer env2 (transferRequest ''A'' ''A'' (15 / 1000) ''K5'') store1))
       ''0a1f'' = Some (80001 / 100)"
  by (simp add: balanceOf_def service_defs sample_defs)

section \<open>Transaction history\<close>







section \<open>Lock order\<close>

text \<open>
  C1, as amended. For every call whose unit of work finds both wallets, the two row locks
  are taken in the order of the request: the source wallet's row first, then the
  destination wallet's row. The order follows the direction of the transfer and not the
  wallet identifiers.
\<close>

theorem locks_follow_transfer_direction:
  assumes "Wallet_findOne (req_fromUserId request) db = Some fromWallet"
    and "Wallet_findOne (req_toUserId request) db = Some toWallet"
  shows "locksAcquired e request db = [wallet_id fromWallet, wallet_id toWallet]"
  using assms
  by (simp add: locksAcquired_def transferBody_def Wallet_findOne_lock_def
      Transaction_create_def Wallet_decrement_def Wallet_increment_def
      Transaction_update_status_def Let_def split: sum.splits)

theorem locks_follow_transfer_direction_witness:
  "Wallet_findOne (req_fromUserId (transferRequest ''A'' ''B'' 50 ''K9'')) store0 = Some walletA
   \<and> Wallet_findOne (req_toUserId (transferRequest ''A'' ''B'' 50 ''K9'')) store0 = Some walletB
   \<and> locksAcquired env1 (transferRequest ''A'' ''B'' 50 ''K9'') store0 = [''0a1f'', ''7c3e'']"
  using locks_follow_transfer_direction
          [of "transferRequest ''A'' ''B'' 50 ''K9''" store0 walletA walletB env1]
  by (simp add: Wallet_findOne_def sample_defs)

text \<open>
  The claim as stated fails for a transfer from the wallet with the greater identifier to
  the one with the lesser: from B to A the locks are taken in descending order of
  identifier, the reverse of the order taken from A to B.
\<close>

theorem lock_order_counterexample:
  "locksAcquired env1 (transferRequest ''B'' ''A'' 50 ''K9'') store0 = [''7c3e'', ''0a1f'']
   \<and> \<not> sorted [''7c3e'', ''0a1f'']
   \<and> locksAcquired env1 (transferRequest ''A'' ''B'' 50 ''K9'') store0 = [''0a1f'', ''7c3e'']"
  by (simp add: locksAcquired_def transferBody_def Wallet_findOne_lock_def Wallet_findOne_def
      Transaction_create_def Wallet_decrement_def Wallet_increment_def
      Transaction_update_status_def Let_def decimal_defs sample_defs)

section \<open>One step of one call\<close>

lemma step_Start:
  assumes "call_pc c = Start"
  shows "snd (step c db) = db"
    and "call_pc (fst (step c db)) = Proceed
       \<or> call_pc (fst (step c db))
            = Thrown_invalid (AppError ''Transfer amount must be greater than 0'' 400)
         \<and> req_amount (call_request c) \<le> 0
       \<or> call_pc (fst (step c db))
            = Thrown_pending (AppError ''This transaction is already being processed'' 409)
         \<and> (\<exists>l. transaction_logs db (req_idempotencyKey (call_request c)) = Some l)
       \<or> (\<exists>l. transaction_logs db (req_idempotencyKey (call_request c)) = Some l
              \<and> log_status l = LOG_COMPLETED
              \<and> call_pc (fst (step c db)) = Returned_stored (responsePayload l))"
  using assms
  by (auto simp: step_def Let_def checkIdempotencyKey_def split: option.splits)

lemma step_Proceed:
  assumes "call_pc c = Proceed"
  shows "(\<exists>l. transaction_logs db (req_idempotencyKey (call_request c)) = Some l)
           \<and> snd (step c db) = db
           \<and> call_pc (fst (step c db))
               = Thrown_create (AppError ''Request is already being processed. Please wait.'' 409)
       \<or> transaction_logs db (req_idempotencyKey (call_request c)) = None
           \<and> snd (step c db)
               = db\<lparr>transaction_logs := (transaction_logs db)
                      (req_idempotencyKey (call_request c) \<mapsto> pending_log (call_request c))\<rparr>
           \<and> call_pc (fst (step c db)) = Holding"
  using assms
  by (cases "transaction_logs db (req_idempotencyKey (call_request c))")
     (simp_all add: step_def Let_def createPendingLog_absent createPendingLog_present
        pending_log_def)

lemma step_Holding:
  assumes "call_pc c = Holding"
  shows "transaction_logs (snd (step c db)) = transaction_logs db"
    and "\<exists>r. call_pc (fst (step c db)) = Resolved r"
  using assms
  by (auto simp: step_def Let_def unit_keeps_logs split: sum.splits)

lemma step_Resolved_Inr:
  assumes "call_pc c = Resolved (Inr r)"
  shows "step c db =
     (c\<lparr>call_pc := Returned_result r\<rparr>,
      markAsCompleted (req_idempotencyKey (call_request c)) (res_transactionId r) r db)"
  using assms by (simp add: step_def Let_def)

lemma step_Resolved_Inl:
  assumes "call_pc c = Resolved (Inl err)"
  shows "step c db =
     (c\<lparr>call_pc := Rethrown err\<rparr>,
      markAsFailed (req_idempotencyKey (call_request c)) (message err) db)"
  using assms by (simp add: step_def Let_def)

lemma step_over:
  assumes "outcome (call_pc c) \<noteq> None"
  shows "step c db = (c, db)"
  using assms by (cases "call_pc c") (simp_all add: step_def Let_def)

lemma step_keeps_request:
  "call_request (fst (step c db)) = call_request c"
  "call_env (fst (step c db)) = call_env c"
  by (cases "call_pc c";
      auto simp: step_def Let_def split: option.splits sum.splits)+

text \<open>Only the unit of work of a call that holds its pending record writes to the wallets
  and transfers tables.\<close>

lemma step_touches_balances:
  assumes "wallets (snd (step c db)) \<noteq> wallets db
         \<or> transactions (snd (step c db)) \<noteq> transactions db"
  shows "call_pc c = Holding"
  using assms
  by (cases "call_pc c")
     (auto simp: step_def Let_def createPendingLog_def TransactionLog_create_def
        markAsCompleted_def markAsFailed_def split: option.splits sum.splits if_splits error.splits)

section \<open>The ledger under concurrent calls\<close>

lemma run_snoc: "run (sched @ [i]) cfg = sys_step i (run sched cfg)"
  by (induction sched arbitrary: cfg) simp_all

lemma run_append: "run (sched @ rest) cfg = run rest (run sched cfg)"
  by (induction sched arbitrary: cfg) simp_all

lemma sys_step_length: "length (fst (sys_step i cfg)) = length (fst cfg)"
  by (simp add: sys_step_def split: prod.splits)

lemma run_length: "length (fst (run sched cfg)) = length (fst cfg)"
  by (induction sched arbitrary: cfg) (simp_all add: sys_step_length)

lemma sys_step_eq:
  assumes "i < length cs"
  shows "sys_step i (cs, db) = (cs[i := fst (step (cs ! i) db)], snd (step (cs ! i) db))"
  using assms by (simp add: sys_step_def split: prod.splits)

lemma sys_step_out: "\<not> i < length cs \<Longrightarrow> sys_step i (cs, db) = (cs, db)"
  by (simp add: sys_step_def)

lemma step_key: "key_of (fst (step c db)) = key_of c"
  by (simp add: key_of_def step_keeps_request)

lemma ledger_invD:
  assumes "ledger_inv (cs, db)" and "i < length cs" and "in_flight (call_pc (cs ! i))"
  shows "map_option log_status (transaction_logs db (key_of (cs ! i))) = Some LOG_PENDING"
    and "\<And>j. j < length cs \<Longrightarrow> in_flight (call_pc (cs ! j))
           \<Longrightarrow> key_of (cs ! j) = key_of (cs ! i) \<Longrightarrow> j = i"
  using assms by (simp_all add: ledger_inv_def)

lemma ledger_invI:
  assumes "\<And>a. a < length cs \<Longrightarrow> in_flight (call_pc (cs ! a))
             \<Longrightarrow> map_option log_status (transaction_logs db (key_of (cs ! a))) = Some LOG_PENDING"
    and "\<And>a j. a < length cs \<Longrightarrow> j < length cs \<Longrightarrow> in_flight (call_pc (cs ! a))
             \<Longrightarrow> in_flight (call_pc (cs ! j)) \<Longrightarrow> key_of (cs ! j) = key_of (cs ! a) \<Longrightarrow> j = a"
  shows "ledger_inv (cs, db)"
  using assms by (simp add: ledger_inv_def)

text \<open>A step that neither takes nor gives up a pending record and leaves the ledger alone.\<close>

lemma ledger_inv_same:
  assumes inv: "ledger_inv (cs, db)"
    and i: "i < length cs"
    and key: "key_of c' = key_of (cs ! i)"
    and fl: "in_flight (call_pc c') = in_flight (call_pc (cs ! i))"
    and logs: "transaction_logs db' = transaction_logs db"
  shows "ledger_inv (cs[i := c'], db')"
proof (rule ledger_invI)
  have k: "\<And>a. a < length cs \<Longrightarrow> key_of (cs[i := c'] ! a) = key_of (cs ! a)"
    using key i by (simp add: nth_list_update)
  have f: "\<And>a. a < length cs
             \<Longrightarrow> in_flight (call_pc (cs[i := c'] ! a)) = in_flight (call_pc (cs ! a))"
    using fl i by (simp add: nth_list_update)
  {
    fix a
    assume a: "a < length (cs[i := c'])" and fa: "in_flight (call_pc (cs[i := c'] ! a))"
    from a have a': "a < length cs" by simp
    from fa f [OF a'] have "in_flight (call_pc (cs ! a))" by simp
    from ledger_invD(1) [OF inv a' this] k [OF a'] logs
    show "map_option log_status (transaction_logs db' (key_of (cs[i := c'] ! a)))
            = Some LOG_PENDING"
      by simp
  }
  {
    fix a j
    assume a: "a < length (cs[i := c'])" and j: "j < length (cs[i := c'])"
      and fa: "in_flight (call_pc (cs[i := c'] ! a))"
      and fj: "in_flight (call_pc (cs[i := c'] ! j))"
      and kk: "key_of (cs[i := c'] ! j) = key_of (cs[i := c'] ! a)"
    from a j have a': "a < length cs" and j': "j < length cs" by simp_all
    from fa f [OF a'] have 1: "in_flight (call_pc (cs ! a))" by simp
    from fj f [OF j'] have 2: "in_flight (call_pc (cs ! j))" by simp
    from kk k [OF a'] k [OF j'] have 3: "key_of (cs ! j) = key_of (cs ! a)" by simp
    from ledger_invD(2) [OF inv a' 1 j' 2 3] show "j = a" .
  }
qed

text \<open>A step that inserts the pending record of a key that had none.\<close>

lemma ledger_inv_take:
  assumes inv: "ledger_inv (cs, db)"
    and i: "i < length cs"
    and key: "key_of c' = key_of (cs ! i)"
    and none: "transaction_logs db (key_of (cs ! i)) = None"
    and logs: "transaction_logs db' = (transaction_logs db)(key_of (cs ! i) \<mapsto> l)"
    and l: "log_status l = LOG_PENDING"
  shows "ledger_inv (cs[i := c'], db')"
proof (rule ledger_invI)
  have k: "\<And>a. a < length cs \<Longrightarrow> key_of (cs[i := c'] ! a) = key_of (cs ! a)"
    using key i by (simp add: nth_list_update)
  have others: "\<And>j. j < length cs \<Longrightarrow> in_flight (call_pc (cs ! j))
                  \<Longrightarrow> key_of (cs ! j) \<noteq> key_of (cs ! i)"
  proof
    fix j assume j: "j < length cs" and fj: "in_flight (call_pc (cs ! j))"
      and e: "key_of (cs ! j) = key_of (cs ! i)"
    from ledger_invD(1) [OF inv j fj] e none show False by simp
  qed
  {
    fix a
    assume a: "a < length (cs[i := c'])" and fa: "in_flight (call_pc (cs[i := c'] ! a))"
    from a have a': "a < length cs" by simp
    show "map_option log_status (transaction_logs db' (key_of (cs[i := c'] ! a)))
            = Some LOG_PENDING"
    proof (cases "key_of (cs ! a) = key_of (cs ! i)")
      case True
      with k [OF a'] logs l show ?thesis by simp
    next
      case False
      then have "a \<noteq> i" by auto
      with fa have "in_flight (call_pc (cs ! a))" by simp
      from ledger_invD(1) [OF inv a' this] False k [OF a'] logs show ?thesis by simp
    qed
  }
  {
    fix a j
    assume a: "a < length (cs[i := c'])" and j: "j < length (cs[i := c'])"
      and fa: "in_flight (call_pc (cs[i := c'] ! a))"
      and fj: "in_flight (call_pc (cs[i := c'] ! j))"
      and kk: "key_of (cs[i := c'] ! j) = key_of (cs[i := c'] ! a)"
    from a j have a': "a < length cs" and j': "j < length cs" by simp_all
    from kk k [OF a'] k [OF j'] have 3: "key_of (cs ! j) = key_of (cs ! a)" by simp
    show "j = a"
    proof (cases "a = i")
      case True
      show ?thesis
      proof (rule ccontr)
        assume ne: "j \<noteq> a"
        with True fj have "in_flight (call_pc (cs ! j))" by simp
        from others [OF j' this] 3 True show False by simp
      qed
    next
      case False
      with fa have 1: "in_flight (call_pc (cs ! a))" by simp
      show ?thesis
      proof (cases "j = i")
        case True
        with others [OF a' 1] 3 show ?thesis by simp
      next
        case False
        with fj have 2: "in_flight (call_pc (cs ! j))" by simp
        from ledger_invD(2) [OF inv a' 1 j' 2 3] show ?thesis .
      qed
    qed
  }
qed

text \<open>A step by which a call in flight leaves the ledger record of its key resolved.\<close>

lemma ledger_inv_give:
  assumes inv: "ledger_inv (cs, db)"
    and i: "i < length cs"
    and key: "key_of c' = key_of (cs ! i)"
    and was: "in_flight (call_pc (cs ! i))"
    and gone: "\<not> in_flight (call_pc c')"
    and logs: "\<And>k. k \<noteq> key_of (cs ! i) \<Longrightarrow> transaction_logs db' k = transaction_logs db k"
  shows "ledger_inv (cs[i := c'], db')"
proof (rule ledger_invI)
  have live: "\<And>a. a < length cs \<Longrightarrow> in_flight (call_pc (cs[i := c'] ! a))
                \<Longrightarrow> a \<noteq> i \<and> in_flight (call_pc (cs ! a))"
    using gone i by (auto simp: nth_list_update split: if_splits)
  {
    fix a
    assume a: "a < length (cs[i := c'])" and fa: "in_flight (call_pc (cs[i := c'] ! a))"
    from a have a': "a < length cs" by simp
    from live [OF a' fa] have ai: "a \<noteq> i" and 1: "in_flight (call_pc (cs ! a))" by simp_all
    have ne: "key_of (cs ! a) \<noteq> key_of (cs ! i)"
    proof
      assume "key_of (cs ! a) = key_of (cs ! i)"
      from ledger_invD(2) [OF inv a' 1 i was this [symmetric]] ai show False by simp
    qed
    from ledger_invD(1) [OF inv a' 1] logs [OF ne] ai
    show "map_option log_status (transaction_logs db' (key_of (cs[i := c'] ! a)))
            = Some LOG_PENDING"
      by simp
  }
  {
    fix a j
    assume a: "a < length (cs[i := c'])" and j: "j < length (cs[i := c'])"
      and fa: "in_flight (call_pc (cs[i := c'] ! a))"
      and fj: "in_flight (call_pc (cs[i := c'] ! j))"
      and kk: "key_of (cs[i := c'] ! j) = key_of (cs[i := c'] ! a)"
    from a j have a': "a < length cs" and j': "j < length cs" by simp_all
    from live [OF a' fa] have ai: "a \<noteq> i" and 1: "in_flight (call_pc (cs ! a))" by simp_all
    from live [OF j' fj] have ji: "j \<noteq> i" and 2: "in_flight (call_pc (cs ! j))" by simp_all
    from kk ai ji have 3: "key_of (cs ! j) = key_of (cs ! a)" by simp
    from ledger_invD(2) [OF inv a' 1 j' 2 3] show "j = a" .
  }
qed

section \<open>Sample runs\<close>

lemmas run_defs =
  sys_step_def step_def issue_def call1_def call2_def key_of_def

text \<open>A call that runs alone takes four steps and does what \<^verbatim>\<open>processTransfer\<close> does.\<close>

lemma call_alone:
  "map (outcome \<circ> call_pc) (fst (run [0, 0, 0, 0] ([issue e request], db)))
     = [Some (fst (processTransfer e request db))]
   \<and> snd (run [0, 0, 0, 0] ([issue e request], db)) = snd (processTransfer e request db)"
proof (cases "req_amount request \<le> 0")
  case True
  then show ?thesis
    by (simp add: sys_step_def step_def issue_def processTransfer_def Let_def)
next
  case pos: False
  show ?thesis
  proof (cases "transaction_logs db (req_idempotencyKey request)")
    case None
    show ?thesis
    proof (cases "sequelize_transaction (transferBody e request)
                    (db\<lparr>transaction_logs := (transaction_logs db)
                         (req_idempotencyKey request \<mapsto> pending_log request)\<rparr>)")
      case (Inl err)
      with pos None show ?thesis
        by (simp add: sys_step_def step_def issue_def processTransfer_def executeTransfer_def
            checkIdempotencyKey_def createPendingLog_absent pending_log_def Let_def)
    next
      case (Inr p)
      obtain result db2 where "p = (result, db2)" by (cases p)
      with Inr pos None show ?thesis
        by (simp add: sys_step_def step_def issue_def processTransfer_def executeTransfer_def
            checkIdempotencyKey_def createPendingLog_absent pending_log_def Let_def)
    qed
  next
    case (Some l)
    with pos show ?thesis
      by (cases "log_status l")
         (simp_all add: sys_step_def step_def issue_def processTransfer_def
            checkIdempotencyKey_def createPendingLog_present Let_def)
  qed
qed

text \<open>The two calls interleaved: the second one's insert meets the first one's record.\<close>

lemma sample_run_interleaved:
  "run [0, 1, 0, 1, 0, 0] ([call1, call2], store0)
     = ([call1\<lparr>call_pc := Returned_result response1\<rparr>,
         call2\<lparr>call_pc := Thrown_create
                  (AppError ''Request is already being processed. Please wait.'' 409)\<rparr>],
        store1)"
  by (simp add: run_defs service_defs sample_defs)

text \<open>The second call's lookup comes after the first call is over.\<close>

lemma sample_run_late_lookup:
  "run [0, 0, 0, 0, 1] ([call1, call2], store0)
     = ([call1\<lparr>call_pc := Returned_result response1\<rparr>,
         call2\<lparr>call_pc := Returned_stored (Some response1)\<rparr>],
        store1)"
  by (simp add: run_defs service_defs sample_defs)

lemma sample_run_pending:
  "map_option log_status (transaction_logs (snd (run [0, 0, 0] ([call1, call2], store0))) ''K1'')
     = Some LOG_PENDING"
  by (simp add: run_defs service_defs sample_defs)


lemma markAsCompleted_other:
  "k \<noteq> key \<Longrightarrow> transaction_logs (markAsCompleted key tid payload db) k = transaction_logs db k"
  by (simp add: markAsCompleted_def split: option.splits)

lemma markAsFailed_other:
  "k \<noteq> key \<Longrightarrow> transaction_logs (markAsFailed key msg db) k = transaction_logs db k"
  by (simp add: markAsFailed_def split: option.splits)

lemma markAsCompleted_status:
  "map_option log_status (transaction_logs db key) = Some st \<Longrightarrow>
     map_option log_status (transaction_logs (markAsCompleted key tid payload db) key)
       = Some LOG_COMPLETED"
  by (auto simp: markAsCompleted_def split: option.splits)

lemma markAsFailed_status:
  "map_option log_status (transaction_logs db key) = Some st \<Longrightarrow>
     map_option log_status (transaction_logs (markAsFailed key msg db) key) = Some LOG_FAILED"
  by (auto simp: markAsFailed_def split: option.splits)

lemma ledger_inv_sys_step:
  assumes inv: "ledger_inv cfg"
  shows "ledger_inv (sys_step i cfg)"
proof -
  obtain cs db where cfg: "cfg = (cs, db)" by (cases cfg)
  show ?thesis
  proof (cases "i < length cs")
    case False
    with inv cfg show ?thesis by (simp add: sys_step_out)
  next
    case i: True
    let ?c = "cs ! i"
    let ?c' = "fst (step ?c db)"
    let ?db' = "snd (step ?c db)"
    have key: "key_of ?c' = key_of ?c" by (rule step_key)
    from inv cfg have inv': "ledger_inv (cs, db)" by simp
    have "ledger_inv (cs[i := ?c'], ?db')"
    proof (cases "call_pc ?c")
      case Start
      from step_Start(2) [OF Start, of db] have "\<not> in_flight (call_pc ?c')" by auto
      with Start have "in_flight (call_pc ?c') = in_flight (call_pc ?c)" by simp
      moreover from step_Start(1) [OF Start] have "transaction_logs ?db' = transaction_logs db"
        by simp
      ultimately show ?thesis using ledger_inv_same [OF inv' i key] by blast
    next
      case Proceed
      from step_Proceed [OF Proceed, of db] show ?thesis
      proof (elim disjE conjE)
        assume "?db' = db"
          and "call_pc ?c' = Thrown_create
                 (AppError ''Request is already being processed. Please wait.'' 409)"
        with Proceed have "in_flight (call_pc ?c') = in_flight (call_pc ?c)"
          and "transaction_logs ?db' = transaction_logs db" by simp_all
        then show ?thesis using ledger_inv_same [OF inv' i key] by blast
      next
        assume none: "transaction_logs db (req_idempotencyKey (call_request ?c)) = None"
          and db': "?db' = db\<lparr>transaction_logs := (transaction_logs db)
                      (req_idempotencyKey (call_request ?c) \<mapsto> pending_log (call_request ?c))\<rparr>"
        from none have n: "transaction_logs db (key_of ?c) = None" by (simp add: key_of_def)
        from db' have l: "transaction_logs ?db'
            = (transaction_logs db)(key_of ?c \<mapsto> pending_log (call_request ?c))"
          by (simp add: key_of_def)
        have "log_status (pending_log (call_request ?c)) = LOG_PENDING"
          by (simp add: pending_log_def)
        with ledger_inv_take [OF inv' i key n l] show ?thesis by blast
      qed
    next
      case Holding
      from step_Holding(2) [OF Holding, of db] Holding
      have "in_flight (call_pc ?c') = in_flight (call_pc ?c)" by auto
      with step_Holding(1) [OF Holding, of db] show ?thesis
        using ledger_inv_same [OF inv' i key] by blast
    next
      case (Resolved r)
      then have was: "in_flight (call_pc ?c)" by simp
      show ?thesis
      proof (cases r)
        case (Inl err)
        with Resolved have s: "step ?c db =
            (?c\<lparr>call_pc := Rethrown err\<rparr>,
             markAsFailed (req_idempotencyKey (call_request ?c)) (message err) db)"
          by (simp add: step_Resolved_Inl)
        then have "\<not> in_flight (call_pc ?c')" by simp
        moreover have "\<And>k. k \<noteq> key_of ?c \<Longrightarrow> transaction_logs ?db' k = transaction_logs db k"
          using s by (simp add: key_of_def markAsFailed_other)
        ultimately show ?thesis using ledger_inv_give [OF inv' i key was] by blast
      next
        case (Inr res)
        with Resolved have s: "step ?c db =
            (?c\<lparr>call_pc := Returned_result res\<rparr>,
             markAsCompleted (req_idempotencyKey (call_request ?c)) (res_transactionId res) res db)"
          by (simp add: step_Resolved_Inr)
        then have "\<not> in_flight (call_pc ?c')" by simp
        moreover have "\<And>k. k \<noteq> key_of ?c \<Longrightarrow> transaction_logs ?db' k = transaction_logs db k"
          using s by (simp add: key_of_def markAsCompleted_other)
        ultimately show ?thesis using ledger_inv_give [OF inv' i key was] by blast
      qed
    next
      case (Thrown_invalid err)
      then have "step ?c db = (?c, db)" by (simp add: step_over)
      with inv' i show ?thesis by simp
    next
      case (Returned_stored stored)
      then have "step ?c db = (?c, db)" by (simp add: step_over)
      with inv' i show ?thesis by simp
    next
      case (Thrown_pending err)
      then have "step ?c db = (?c, db)" by (simp add: step_over)
      with inv' i show ?thesis by simp
    next
      case (Thrown_create err)
      then have "step ?c db = (?c, db)" by (simp add: step_over)
      with inv' i show ?thesis by simp
    next
      case (Returned_result res)
      then have "step ?c db = (?c, db)" by (simp add: step_over)
      with inv' i show ?thesis by simp
    next
      case (Rethrown err)
      then have "step ?c db = (?c, db)" by (simp add: step_over)
      with inv' i show ?thesis by simp
    qed
    with cfg i show ?thesis by (simp add: sys_step_eq)
  qed
qed

lemma ledger_inv_run: "ledger_inv cfg \<Longrightarrow> ledger_inv (run sched cfg)"
  by (induction sched arbitrary: cfg) (simp_all add: ledger_inv_sys_step)

lemma ledger_inv_issued:
  assumes "\<forall>c \<in> set cs. call_pc c = Start"
  shows "ledger_inv (cs, db)"
  using assms by (simp add: ledger_inv_def)

text \<open>Under the invariant, a step moves every ledger record forward or not at all.\<close>

lemma ledger_move_sys_step:
  assumes inv: "ledger_inv cfg"
  shows "ledger_move (transaction_logs (snd cfg) k) (transaction_logs (snd (sys_step i cfg)) k)"
proof -
  obtain cs db where cfg: "cfg = (cs, db)" by (cases cfg)
  show ?thesis
  proof (cases "i < length cs")
    case False
    with cfg show ?thesis by (simp add: sys_step_out ledger_move_def)
  next
    case i: True
    let ?c = "cs ! i"
    let ?db' = "snd (step ?c db)"
    from inv cfg have inv': "ledger_inv (cs, db)" by simp
    have "ledger_move (transaction_logs db k) (transaction_logs ?db' k)"
    proof (cases "call_pc ?c")
      case Start
      from step_Start(1) [OF Start] show ?thesis by (simp add: ledger_move_def)
    next
      case Proceed
      from step_Proceed [OF Proceed, of db] show ?thesis
      proof (elim disjE conjE)
        assume "?db' = db"
        then show ?thesis by (simp add: ledger_move_def)
      next
        assume none: "transaction_logs db (req_idempotencyKey (call_request ?c)) = None"
          and db': "?db' = db\<lparr>transaction_logs := (transaction_logs db)
                      (req_idempotencyKey (call_request ?c) \<mapsto> pending_log (call_request ?c))\<rparr>"
        show ?thesis
        proof (cases "k = req_idempotencyKey (call_request ?c)")
          case True
          with none db' show ?thesis by (simp add: ledger_move_def pending_log_def)
        next
          case False
          with db' show ?thesis by (simp add: ledger_move_def)
        qed
      qed
    next
      case Holding
      from step_Holding(1) [OF Holding, of db] show ?thesis by (simp add: ledger_move_def)
    next
      case (Resolved r)
      then have "in_flight (call_pc ?c)" by simp
      from ledger_invD(1) [OF inv' i this]
      have p: "map_option log_status (transaction_logs db (key_of ?c)) = Some LOG_PENDING" .
      show ?thesis
      proof (cases "k = key_of ?c")
        case True
        with p Resolved show ?thesis
          by (cases r)
             (simp_all add: step_Resolved_Inl step_Resolved_Inr ledger_move_def key_of_def
                markAsFailed_status markAsCompleted_status)
      next
        case False
        with Resolved show ?thesis
          by (cases r)
             (simp_all add: step_Resolved_Inl step_Resolved_Inr ledger_move_def key_of_def
                markAsFailed_other markAsCompleted_other)
      qed
    qed (simp_all add: step_over ledger_move_def)
    with cfg i show ?thesis by (simp add: sys_step_eq)
  qed
qed

lemma completed_stays:
  assumes "ledger_inv cfg"
    and "transaction_logs (snd cfg) k = Some l"
    and "log_status l = LOG_COMPLETED"
  shows "transaction_logs (snd (run sched cfg)) k = Some l"
  using assms
proof (induction sched arbitrary: cfg)
  case Nil
  then show ?case by simp
next
  case (Cons i sched)
  from ledger_move_sys_step [OF Cons.prems(1), of k i] Cons.prems(2,3)
  have "transaction_logs (snd (sys_step i cfg)) k = Some l"
    by (auto simp: ledger_move_def)
  with Cons.IH [OF ledger_inv_sys_step [OF Cons.prems(1)]] Cons.prems(3)
  show ?case by simp
qed

text \<open>
  C5, as amended. \<^verbatim>\<open>markAsCompleted\<close> and \<^verbatim>\<open>markAsFailed\<close> themselves update the record
  of the key whatever its status. In every run of any number of \<^verbatim>\<open>processTransfer\<close>
  calls, in any interleaving of their steps, they are only ever applied to a pending
  record: each step moves each ledger record from absent to pending, from pending to
  completed or failed, or leaves it alone; and a record that is completed stays exactly
  as it is, stored response included, through every later step of every call.
\<close>

theorem ledger_moves_forward:
  assumes "\<forall>c \<in> set cs. call_pc c = Start"
  shows "ledger_move (transaction_logs (snd (run sched (cs, db))) k)
                     (transaction_logs (snd (run (sched @ [i]) (cs, db))) k)
       \<and> (\<forall>l later. transaction_logs (snd (run sched (cs, db))) k = Some l
                      \<and> log_status l = LOG_COMPLETED
            \<longrightarrow> transaction_logs (snd (run (sched @ later) (cs, db))) k = Some l)"
proof -
  from assms have "ledger_inv (cs, db)" by (rule ledger_inv_issued)
  then have inv: "ledger_inv (run sched (cs, db))" by (rule ledger_inv_run)
  from ledger_move_sys_step [OF inv] completed_stays [OF inv]
  show ?thesis by (simp add: run_snoc run_append)
qed

text \<open>
  On the two sample calls: after three steps of the first call the record of K1 is pending,
  its fourth step completes it, and the steps of the second call that follow leave the
  completed record as it is.
\<close>

theorem ledger_moves_forward_witness:
  "map call_pc [call1, call2] = [Start, Start]
   \<and> map_option log_status
         (transaction_logs (snd (run [0, 0, 0] ([call1, call2], store0))) ''K1'')
       = Some LOG_PENDING
   \<and> transaction_logs (snd (run ([0, 0, 0] @ [0]) ([call1, call2], store0))) ''K1''
       = Some completed1
   \<and> log_status completed1 = LOG_COMPLETED
   \<and> transaction_logs (snd (run ([0, 0, 0, 0] @ [1, 1]) ([call1, call2], store0))) ''K1''
       = Some completed1"
proof -
  have h: "\<forall>c \<in> set [call1, call2]. call_pc c = Start"
    by (simp add: run_defs)
  have done4: "transaction_logs (snd (run [0, 0, 0, 0] ([call1, call2], store0))) ''K1''
                 = Some completed1"
    by (simp add: run_defs service_defs sample_defs)
  have c: "log_status completed1 = LOG_COMPLETED" by (simp add: completed1_def)
  from ledger_moves_forward [OF h, of "[0, 0, 0, 0]" store0 "''K1''" 0] done4 c
  have later: "transaction_logs (snd (run ([0, 0, 0, 0] @ [1, 1]) ([call1, call2], store0))) ''K1''
          = Some completed1"
    by blast
  have start: "map call_pc [call1, call2] = [Start, Start]"
    by (simp add: call1_def call2_def issue_def)
  from done4 have "transaction_logs (snd (run ([0, 0, 0] @ [0]) ([call1, call2], store0))) ''K1''
          = Some completed1"
    by simp
  with start sample_run_pending c later show ?thesis
    by blast
qed

text \<open>
  The claim as stated fails for the two operations taken by themselves: applied to the
  completed record of K1, \<^verbatim>\<open>markAsFailed\<close> turns it into a failed record, and
  \<^verbatim>\<open>markAsCompleted\<close> overwrites its stored response.
\<close>

theorem mark_completed_record_counterexample:
  "transaction_logs store1 ''K1'' = Some completed1
   \<and> log_status completed1 = LOG_COMPLETED
   \<and> transaction_logs (markAsFailed ''K1'' ''late failure'' store1) ''K1''
       = Some (completed1\<lparr>log_status := LOG_FAILED, errorMessage := Some ''late failure''\<rparr>)
   \<and> transaction_logs
         (markAsCompleted ''K1'' ''t-0002'' (response1\<lparr>res_transactionId := ''t-0002''\<rparr>) store1)
         ''K1''
       = Some (completed1\<lparr>log_transactionId := Some ''t-0002'',
                 responsePayload := Some (response1\<lparr>res_transactionId := ''t-0002''\<rparr>)\<rparr>)
   \<and> responsePayload completed1 \<noteq> Some (response1\<lparr>res_transactionId := ''t-0002''\<rparr>)"
  by (simp add: markAsFailed_def markAsCompleted_def store1_def completed1_def response1_def)

section \<open>Admission of one call per key\<close>

lemma early_bystander: "early c \<Longrightarrow> bystander l c"
  by (simp add: bystander_def)

lemma bystander_not_completed:
  "log_status l \<noteq> LOG_COMPLETED \<Longrightarrow> bystander l c \<Longrightarrow> bystander l' c"
  by (auto simp: bystander_def)

lemma bystander_not_created: "bystander l c \<Longrightarrow> \<not> created_pending (call_pc c)"
  by (auto simp: bystander_def early_def)

lemma early_not_created: "early c \<Longrightarrow> \<not> created_pending (call_pc c)"
  by (auto simp: early_def)

lemma winner_created: "winner l c \<Longrightarrow> created_pending (call_pc c)"
  by (cases "log_status l"; cases "call_pc c"; auto simp: winner_def)

lemma admission_invI_none:
  assumes "\<forall>c \<in> set cs. key_of c = k"
    and "transaction_logs db k = None"
    and "\<forall>c \<in> set cs. early c"
  shows "admission_inv k (cs, db)"
  using assms by (simp add: admission_inv_def)

lemma admission_invI_some:
  assumes "\<forall>c \<in> set cs. key_of c = k"
    and "transaction_logs db k = Some l"
    and "w < length cs"
    and "winner l (cs ! w)"
    and "\<And>j. j < length cs \<Longrightarrow> j \<noteq> w \<Longrightarrow> bystander l (cs ! j)"
  shows "admission_inv k (cs, db)"
  using assms by (auto simp: admission_inv_def)

lemma all_update:
  assumes "\<forall>c \<in> set cs. P c" and "P c'"
  shows "\<forall>c \<in> set (cs[i := c']). P c"
  using assms set_update_subset_insert [of cs i c'] by auto

lemma admission_inv_sys_step:
  assumes inv: "admission_inv k cfg"
  shows "admission_inv k (sys_step i cfg)"
proof -
  obtain cs db where cfg: "cfg = (cs, db)" by (cases cfg)
  show ?thesis
  proof (cases "i < length cs")
    case False
    with inv cfg show ?thesis by (simp add: sys_step_out)
  next
    case i: True
    let ?c = "cs ! i"
    let ?c' = "fst (step ?c db)"
    let ?db' = "snd (step ?c db)"
    from inv cfg have keys: "\<forall>c \<in> set cs. key_of c = k"
      by (simp add: admission_inv_def)
    with i have kc: "key_of ?c = k" by simp
    then have rk: "req_idempotencyKey (call_request ?c) = k" by (simp add: key_of_def)
    have kc': "key_of ?c' = k" using kc by (simp add: step_key)
    from keys kc' have keys': "\<forall>c \<in> set (cs[i := ?c']). key_of c = k"
      by (rule all_update)
    have req': "call_request ?c' = call_request ?c" by (rule step_keeps_request)
    have same: "step ?c db = (?c, db) \<Longrightarrow> admission_inv k (cs[i := ?c'], ?db')"
      using inv cfg by simp
    have "admission_inv k (cs[i := ?c'], ?db')"
    proof (cases "transaction_logs db k")
      case None
      with inv cfg have all_early: "\<forall>c \<in> set cs. early c"
        by (simp add: admission_inv_def)
      with i have "early ?c" by simp
      then consider (start) "call_pc ?c = Start" | (proceed) "call_pc ?c = Proceed"
        | (over) "outcome (call_pc ?c) \<noteq> None"
        by (auto simp: early_def)
      then show ?thesis
      proof cases
        case start
        from step_Start(2) [OF start, of db] None rk req'
        have "early ?c'" by (auto simp: early_def)
        with all_early have "\<forall>c \<in> set (cs[i := ?c']). early c" by (rule all_update)
        moreover from step_Start(1) [OF start, of db] None
        have "transaction_logs ?db' k = None" by simp
        ultimately show ?thesis using keys' by (rule_tac admission_invI_none)
      next
        case proceed
        from step_Proceed [OF proceed, of db] None rk
        have db': "?db' = db\<lparr>transaction_logs :=
                      (transaction_logs db)(k \<mapsto> pending_log (call_request ?c))\<rparr>"
          and pc': "call_pc ?c' = Holding"
          by auto
        from db' have l: "transaction_logs ?db' k = Some (pending_log (call_request ?c))"
          by simp
        have w: "winner (pending_log (call_request ?c)) (cs[i := ?c'] ! i)"
          using i pc' by (simp add: winner_def pending_log_def)
        have b: "\<And>j. j < length (cs[i := ?c']) \<Longrightarrow> j \<noteq> i
                   \<Longrightarrow> bystander (pending_log (call_request ?c)) (cs[i := ?c'] ! j)"
          using all_early by (simp add: early_bystander)
        from i have i': "i < length (cs[i := ?c'])" by simp
        from admission_invI_some [OF keys' l i' w b] show ?thesis .
      next
        case over
        then show ?thesis by (intro same step_over)
      qed
    next
      case (Some l)
      with inv cfg obtain w where w: "w < length cs" and win: "winner l (cs ! w)"
        and bys: "\<And>j. j < length cs \<Longrightarrow> j \<noteq> w \<Longrightarrow> bystander l (cs ! j)"
        by (auto simp: admission_inv_def)
      show ?thesis
      proof (cases "i = w")
        case True
        from w have w': "w < length (cs[i := ?c'])" by simp
        have others: "\<And>l'. log_status l \<noteq> LOG_COMPLETED \<Longrightarrow>
            (\<And>j. j < length (cs[i := ?c']) \<Longrightarrow> j \<noteq> w \<Longrightarrow> bystander l' (cs[i := ?c'] ! j))"
          using True by (simp add: bystander_not_completed [OF _ bys])
        show ?thesis
        proof (cases "call_pc ?c")
          case Holding
          from step_Holding [OF Holding, of db] Holding win True Some w
          have l': "transaction_logs ?db' k = Some l"
            and "winner l (cs[i := ?c'] ! w)"
            by (auto simp: winner_def split: TransactionLogStatus.splits)
          moreover have "\<And>j. j < length (cs[i := ?c']) \<Longrightarrow> j \<noteq> w
                           \<Longrightarrow> bystander l (cs[i := ?c'] ! j)"
            using True bys by simp
          ultimately show ?thesis using keys' w' by (rule_tac admission_invI_some)
        next
          case (Resolved r)
          with win True have pend: "log_status l = LOG_PENDING"
            by (cases "log_status l") (auto simp: winner_def)
          then have nc: "log_status l \<noteq> LOG_COMPLETED" by simp
          show ?thesis
          proof (cases r)
            case (Inl err)
            let ?l' = "l\<lparr>log_status := LOG_FAILED, errorMessage := Some (message err)\<rparr>"
            from Inl Resolved rk Some have l': "transaction_logs ?db' k = Some ?l'"
              and pc': "call_pc ?c' = Rethrown err"
              by (simp_all add: step_Resolved_Inl markAsFailed_def)
            from pc' True w have "winner ?l' (cs[i := ?c'] ! w)"
              by (simp add: winner_def)
            from admission_invI_some [OF keys' l' w' this others [OF nc]] show ?thesis .
          next
            case (Inr res)
            let ?l' = "l\<lparr>log_status := LOG_COMPLETED,
                         log_transactionId := Some (res_transactionId res),
                         responsePayload := Some res\<rparr>"
            from Inr Resolved rk Some have l': "transaction_logs ?db' k = Some ?l'"
              and pc': "call_pc ?c' = Returned_result res"
              by (simp_all add: step_Resolved_Inr markAsCompleted_def)
            from pc' True w have "winner ?l' (cs[i := ?c'] ! w)"
              by (simp add: winner_def)
            from admission_invI_some [OF keys' l' w' this others [OF nc]] show ?thesis .
          qed
        next
          case Start
          with winner_created [OF win] True show ?thesis by simp
        next
          case Proceed
          with winner_created [OF win] True show ?thesis by simp
        qed (intro same step_over; simp)+
      next
        case False
        from w have w': "w < length (cs[i := ?c'])" by simp
        from False win have win': "winner l (cs[i := ?c'] ! w)" by simp
        have frame: "transaction_logs ?db' k = Some l \<Longrightarrow> bystander l ?c'
                       \<Longrightarrow> admission_inv k (cs[i := ?c'], ?db')"
        proof -
          assume l': "transaction_logs ?db' k = Some l" and b: "bystander l ?c'"
          have "\<And>j. j < length (cs[i := ?c']) \<Longrightarrow> j \<noteq> w \<Longrightarrow> bystander l (cs[i := ?c'] ! j)"
            using b bys i by (auto simp: nth_list_update)
          from admission_invI_some [OF keys' l' w' win' this] show ?thesis .
        qed
        from bys [OF i False] have bi: "bystander l ?c" .
        then consider (start) "call_pc ?c = Start" | (proceed) "call_pc ?c = Proceed"
          | (over) "outcome (call_pc ?c) \<noteq> None"
          by (auto simp: bystander_def early_def)
        then show ?thesis
        proof cases
          case start
          from step_Start(2) [OF start, of db] Some rk req'
          have "bystander l ?c'" by (auto simp: bystander_def early_def)
          moreover from step_Start(1) [OF start, of db] Some
          have "transaction_logs ?db' k = Some l" by simp
          ultimately show ?thesis by (intro frame)
        next
          case proceed
          from step_Proceed [OF proceed, of db] Some rk
          have "?db' = db" and "call_pc ?c' =
              Thrown_create (AppError ''Request is already being processed. Please wait.'' 409)"
            by auto
          with Some have "transaction_logs ?db' k = Some l" and "bystander l ?c'"
            by (simp_all add: bystander_def)
          then show ?thesis by (intro frame)
        next
          case over
          then show ?thesis by (intro same step_over)
        qed
      qed
    qed
    with cfg i show ?thesis by (simp add: sys_step_eq)
  qed
qed

lemma admission_inv_run: "admission_inv k cfg \<Longrightarrow> admission_inv k (run sched cfg)"
  by (induction sched arbitrary: cfg) (simp_all add: admission_inv_sys_step)

lemma sys_step_request:
  "j < length (fst cfg) \<Longrightarrow>
     call_request (fst (sys_step i cfg) ! j) = call_request (fst cfg ! j)"
proof -
  assume j: "j < length (fst cfg)"
  obtain cs db where cfg: "cfg = (cs, db)" by (cases cfg)
  show ?thesis
  proof (cases "i < length cs")
    case True
    with j cfg show ?thesis
      by (simp add: sys_step_eq nth_list_update step_keeps_request)
  next
    case False
    with cfg show ?thesis by (simp add: sys_step_out)
  qed
qed

lemma run_request:
  "j < length (fst cfg) \<Longrightarrow> call_request (fst (run sched cfg) ! j) = call_request (fst cfg ! j)"
proof (induction sched arbitrary: cfg)
  case Nil
  then show ?case by simp
next
  case (Cons i sched)
  from Cons.prems have "j < length (fst (sys_step i cfg))" by (simp add: sys_step_length)
  from Cons.IH [OF this] Cons.prems show ?case by (simp add: sys_step_request)
qed

lemma sys_step_touches_balances:
  assumes "wallets (snd (sys_step i cfg)) \<noteq> wallets (snd cfg)
         \<or> transactions (snd (sys_step i cfg)) \<noteq> transactions (snd cfg)"
  shows "i < length (fst cfg) \<and> call_pc (fst cfg ! i) = Holding"
proof (cases "i < length (fst cfg)")
  case True
  with assms have "wallets (snd (step (fst cfg ! i) (snd cfg))) \<noteq> wallets (snd cfg)
         \<or> transactions (snd (step (fst cfg ! i) (snd cfg))) \<noteq> transactions (snd cfg)"
    by (cases cfg) (simp add: sys_step_eq)
  with True show ?thesis by (simp add: step_touches_balances)
next
  case False
  with assms show ?thesis by (simp add: sys_step_def)
qed

lemma admission_one_creator:
  assumes inv: "admission_inv k cfg"
    and i: "i < length (fst cfg)" and j: "j < length (fst cfg)"
    and ci: "created_pending (call_pc (fst cfg ! i))"
    and cj: "created_pending (call_pc (fst cfg ! j))"
  shows "i = j"
proof (cases "transaction_logs (snd cfg) k")
  case None
  with inv i have "early (fst cfg ! i)" by (simp add: admission_inv_def)
  with ci show ?thesis by (simp add: early_not_created)
next
  case (Some l)
  with inv obtain w where
    bys: "\<And>a. a < length (fst cfg) \<Longrightarrow> a \<noteq> w \<Longrightarrow> bystander l (fst cfg ! a)"
    by (auto simp: admission_inv_def)
  from bys [OF i] ci have "i = w" using bystander_not_created by blast
  moreover from bys [OF j] cj have "j = w" using bystander_not_created by blast
  ultimately show ?thesis by simp
qed

lemma admission_others:
  assumes inv: "admission_inv k cfg"
    and i: "i < length (fst cfg)"
    and ci: "\<not> created_pending (call_pc (fst cfg ! i))"
  shows "outcome (call_pc (fst cfg ! i)) = None
       \<or> outcome (call_pc (fst cfg ! i))
            = Some (Inl (AppError ''Transfer amount must be greater than 0'' 400))
       \<or> outcome (call_pc (fst cfg ! i))
            = Some (Inl (AppError ''This transaction is already being processed'' 409))
       \<or> outcome (call_pc (fst cfg ! i))
            = Some (Inl (AppError ''Request is already being processed. Please wait.'' 409))
       \<or> (\<exists>j < length (fst cfg). \<exists>r. call_pc (fst cfg ! j) = Returned_result r
              \<and> outcome (call_pc (fst cfg ! i)) = Some (Inr (Some r)))"
proof (cases "transaction_logs (snd cfg) k")
  case None
  with inv i have "early (fst cfg ! i)" by (simp add: admission_inv_def)
  then show ?thesis by (auto simp: early_def)
next
  case (Some l)
  with inv obtain w where w: "w < length (fst cfg)" and win: "winner l (fst cfg ! w)"
    and bys: "\<And>a. a < length (fst cfg) \<Longrightarrow> a \<noteq> w \<Longrightarrow> bystander l (fst cfg ! a)"
    by (auto simp: admission_inv_def)
  from winner_created [OF win] ci have "i \<noteq> w" by auto
  from bys [OF i this] consider
      "early (fst cfg ! i)"
    | "call_pc (fst cfg ! i)
         = Thrown_pending (AppError ''This transaction is already being processed'' 409)"
    | "call_pc (fst cfg ! i)
         = Thrown_create (AppError ''Request is already being processed. Please wait.'' 409)"
    | "log_status l = LOG_COMPLETED" "call_pc (fst cfg ! i) = Returned_stored (responsePayload l)"
    by (auto simp: bystander_def)
  then show ?thesis
  proof cases
    case 1
    then show ?thesis by (auto simp: early_def)
  next
    case 2
    then show ?thesis by simp
  next
    case 3
    then show ?thesis by simp
  next
    case 4
    with win obtain r where "call_pc (fst cfg ! w) = Returned_result r"
      and "responsePayload l = Some r"
      by (auto simp: winner_def)
    with 4 w show ?thesis by auto
  qed
qed

lemma admission_some_creator:
  assumes inv: "admission_inv k cfg"
    and over: "\<forall>i < length (fst cfg). outcome (call_pc (fst cfg ! i)) \<noteq> None"
    and pos: "a < length (fst cfg)" "0 < req_amount (call_request (fst cfg ! a))"
  shows "\<exists>i < length (fst cfg). created_pending (call_pc (fst cfg ! i))"
proof (cases "transaction_logs (snd cfg) k")
  case None
  with inv pos(1) have "early (fst cfg ! a)" by (simp add: admission_inv_def)
  with over pos show ?thesis by (auto simp: early_def)
next
  case (Some l)
  with inv obtain w where "w < length (fst cfg)" and "winner l (fst cfg ! w)"
    by (auto simp: admission_inv_def)
  then show ?thesis using winner_created by blast
qed

text \<open>
  C4, as amended. Any number of \<^verbatim>\<open>processTransfer\<close> calls that share one idempotency key
  with no earlier ledger record are issued together and their steps interleave in any
  order. At every moment of every such run:
  \<^item> at most one call has created the pending ledger record;
  \<^item> a call that has not created it is still running, or was rejected for its amount
    (400), or failed with a conflict (409) because its lookup found the pending record
    or its insert hit the key's uniqueness constraint, or, when its lookup came after the
    admitted call had completed, returned the admitted call's result from the ledger;
  \<^item> once every call is over and at least one asked for a positive amount, exactly one
    call has created the pending record;
  \<^item> the wallets and transfers tables change only in the unit of work of the call that
    holds the pending record, so no other call touches a balance.
\<close>

theorem one_call_is_admitted:
  assumes "\<forall>c \<in> set cs. call_pc c = Start \<and> key_of c = k"
    and "transaction_logs db k = None"
  shows "(\<forall>i < length cs. \<forall>j < length cs.
            created_pending (call_pc (fst (run sched (cs, db)) ! i))
            \<and> created_pending (call_pc (fst (run sched (cs, db)) ! j)) \<longrightarrow> i = j)
       \<and> (\<forall>i < length cs. \<not> created_pending (call_pc (fst (run sched (cs, db)) ! i)) \<longrightarrow>
             outcome (call_pc (fst (run sched (cs, db)) ! i)) = None
           \<or> outcome (call_pc (fst (run sched (cs, db)) ! i))
                = Some (Inl (AppError ''Transfer amount must be greater than 0'' 400))
           \<or> outcome (call_pc (fst (run sched (cs, db)) ! i))
                = Some (Inl (AppError ''This transaction is already being processed'' 409))
           \<or> outcome (call_pc (fst (run sched (cs, db)) ! i))
                = Some (Inl (AppError ''Request is already being processed. Please wait.'' 409))
           \<or> (\<exists>j < length cs. \<exists>r.
                 call_pc (fst (run sched (cs, db)) ! j) = Returned_result r
                 \<and> outcome (call_pc (fst (run sched (cs, db)) ! i)) = Some (Inr (Some r))))
       \<and> ((\<forall>i < length cs. outcome (call_pc (fst (run sched (cs, db)) ! i)) \<noteq> None)
            \<and> (\<exists>i < length cs. 0 < req_amount (call_request (cs ! i)))
           \<longrightarrow> (\<exists>i < length cs. created_pending (call_pc (fst (run sched (cs, db)) ! i))))
       \<and> (\<forall>i. wallets (snd (run (sched @ [i]) (cs, db))) \<noteq> wallets (snd (run sched (cs, db)))
                \<or> transactions (snd (run (sched @ [i]) (cs, db)))
                     \<noteq> transactions (snd (run sched (cs, db)))
            \<longrightarrow> i < length cs \<and> call_pc (fst (run sched (cs, db)) ! i) = Holding)"
proof -
  let ?cfg = "run sched (cs, db)"
  from assms have "admission_inv k (cs, db)"
    by (intro admission_invI_none) (simp_all add: early_def)
  then have inv: "admission_inv k ?cfg" by (rule admission_inv_run)
  have len: "length (fst ?cfg) = length cs" by (simp add: run_length)
  have req: "\<And>a. a < length cs \<Longrightarrow> call_request (fst ?cfg ! a) = call_request (cs ! a)"
    using run_request [of _ "(cs, db)" sched] by simp
  have 1: "\<forall>i < length cs. \<forall>j < length cs.
            created_pending (call_pc (fst ?cfg ! i))
            \<and> created_pending (call_pc (fst ?cfg ! j)) \<longrightarrow> i = j"
    using admission_one_creator [OF inv] len by auto
  have 2: "\<forall>i < length cs. \<not> created_pending (call_pc (fst ?cfg ! i)) \<longrightarrow>
             outcome (call_pc (fst ?cfg ! i)) = None
           \<or> outcome (call_pc (fst ?cfg ! i))
                = Some (Inl (AppError ''Transfer amount must be greater than 0'' 400))
           \<or> outcome (call_pc (fst ?cfg ! i))
                = Some (Inl (AppError ''This transaction is already being processed'' 409))
           \<or> outcome (call_pc (fst ?cfg ! i))
                = Some (Inl (AppError ''Request is already being processed. Please wait.'' 409))
           \<or> (\<exists>j < length cs. \<exists>r.
                 call_pc (fst ?cfg ! j) = Returned_result r
                 \<and> outcome (call_pc (fst ?cfg ! i)) = Some (Inr (Some r)))"
    using admission_others [OF inv] len by simp
  have 3: "(\<forall>i < length cs. outcome (call_pc (fst ?cfg ! i)) \<noteq> None)
            \<and> (\<exists>i < length cs. 0 < req_amount (call_request (cs ! i)))
           \<longrightarrow> (\<exists>i < length cs. created_pending (call_pc (fst ?cfg ! i)))"
  proof (intro impI)
    assume "(\<forall>i < length cs. outcome (call_pc (fst ?cfg ! i)) \<noteq> None)
            \<and> (\<exists>i < length cs. 0 < req_amount (call_request (cs ! i)))"
    then obtain a where d: "\<forall>i < length cs. outcome (call_pc (fst ?cfg ! i)) \<noteq> None"
      and a: "a < length cs" "0 < req_amount (call_request (cs ! a))"
      by blast
    from a req have "a < length (fst ?cfg)" "0 < req_amount (call_request (fst ?cfg ! a))"
      using len by simp_all
    from admission_some_creator [OF inv _ this] d len
    show "\<exists>i < length cs. created_pending (call_pc (fst ?cfg ! i))" by simp
  qed
  have 4: "\<forall>i. wallets (snd (run (sched @ [i]) (cs, db))) \<noteq> wallets (snd ?cfg)
                \<or> transactions (snd (run (sched @ [i]) (cs, db))) \<noteq> transactions (snd ?cfg)
            \<longrightarrow> i < length cs \<and> call_pc (fst ?cfg ! i) = Holding"
    using sys_step_touches_balances [of _ ?cfg] len by (simp add: run_snoc)
  from 1 2 3 4 show ?thesis by blast
qed

text \<open>
  On the two sample calls: the steps of the first and the second call alternate; the first
  call creates the pending record and completes, the second is refused at its insert.
\<close>

theorem one_call_is_admitted_witness:
  "map call_pc [call1, call2] = [Start, Start]
   \<and> map key_of [call1, call2] = [''K1'', ''K1'']
   \<and> transaction_logs store0 ''K1'' = None
   \<and> map (created_pending \<circ> call_pc) (fst (run [0, 1, 0, 1, 0, 0] ([call1, call2], store0)))
       = [True, False]
   \<and> map (outcome \<circ> call_pc) (fst (run [0, 1, 0, 1, 0, 0] ([call1, call2], store0)))
       = [Some (Inr (Some response1)),
          Some (Inl (AppError ''Request is already being processed. Please wait.'' 409))]
   \<and> snd (run [0, 1, 0, 1, 0, 0] ([call1, call2], store0)) = store1"
proof -
  have h1: "\<forall>c \<in> set [call1, call2]. call_pc c = Start \<and> key_of c = ''K1''"
    by (simp add: run_defs transferRequest_def)
  have h2: "transaction_logs store0 ''K1'' = None"
    by (simp add: store0_def)
  from one_call_is_admitted [OF h1 h2, of "[0, 1, 0, 1, 0, 0]"]
  have one: "\<forall>i < length [call1, call2]. \<forall>j < length [call1, call2].
          created_pending (call_pc (fst (run [0, 1, 0, 1, 0, 0] ([call1, call2], store0)) ! i))
          \<and> created_pending (call_pc (fst (run [0, 1, 0, 1, 0, 0] ([call1, call2], store0)) ! j))
          \<longrightarrow> i = j"
    by (rule conjunct1)
  from one [rule_format, of 0 1] h2 show ?thesis
    unfolding sample_run_interleaved
    by (simp add: call1_def call2_def issue_def key_of_def transferRequest_def)
qed

text \<open>
  The claim as stated fails when a call's lookup comes after the admitted call is over:
  that call neither executes nor fails with a conflict, it returns the stored result.
\<close>

theorem late_lookup_counterexample:
  "map (outcome \<circ> call_pc) (fst (run [0, 0, 0, 0, 1] ([call1, call2], store0)))
     = [Some (Inr (Some response1)), Some (Inr (Some response1))]
   \<and> map (created_pending \<circ> call_pc) (fst (run [0, 0, 0, 0, 1] ([call1, call2], store0)))
     = [True, False]
   \<and> snd (run [0, 0, 0, 0, 1] ([call1, call2], store0)) = store1"
  unfolding sample_run_late_lookup by simp


end
